theory Spec2Isabelle
  imports Main "HOL-Library.Sublist" "HOL-Library.Word"
begin

section \<open>Text and characters\<close>

text \<open>
  A Python \<open>str\<close> is a sequence of Unicode code points. A code point is an integer
  (what \<open>ord\<close> returns), a \<open>str\<close> is a list of them. String literals of the script
  are written as HOL string literals and converted with \<open>cps\<close>.
\<close>

type_synonym cp = int
type_synonym str = "cp list"

definition cps :: "string \<Rightarrow> str" where
  "cps s = map of_char s"

definition nl :: cp where "nl = 10"
definition cr :: cp where "cr = 13"
definition comma :: cp where "comma = 44"
definition rbrace :: cp where "rbrace = 125"

text \<open>
  The class \<open>\s\<close> of a \<open>str\<close> pattern: the code points for which CPython's
  \<open>Py_UNICODE_ISSPACE\<close> holds (the same test \<open>str.isspace\<close> and \<open>str.strip\<close> use).
\<close>

definition is_space :: "cp \<Rightarrow> bool" where
  "is_space c \<longleftrightarrow>
     (9 \<le> c \<and> c \<le> 13) \<or> (28 \<le> c \<and> c \<le> 32) \<or> c = 133 \<or> c = 160 \<or> c = 5760 \<or>
     (8192 \<le> c \<and> c \<le> 8202) \<or> c = 8232 \<or> c = 8233 \<or> c = 8239 \<or> c = 8287 \<or> c = 12288"

section \<open>Regular expressions: the fragment of Python's \<open>re\<close> the script uses\<close>

text \<open>
  \<open>Eps\<close> is the empty pattern; \<open>Bol\<close> and \<open>Eol\<close> are \<open>^\<close> and \<open>$\<close> under
  \<open>re.MULTILINE\<close>; \<open>Star\<close> and \<open>Opt\<close> are the greedy \<open>*\<close> and \<open>?\<close>; \<open>Grp n\<close> is
  the capturing group number \<open>n\<close>; a non-capturing group \<open>(?:...)\<close> is plain nesting.
\<close>

datatype rx =
    Eps
  | Chr cp
  | Space
  | Bol
  | Eol
  | Seq rx rx
  | Alt rx rx
  | Opt rx
  | Star rx
  | Grp nat rx

text \<open>
  A matcher state: the character before the current position (\<open>None\<close> at the start of
  the text), the text from the current position on, and the groups captured so far.
\<close>

type_synonym groups = "(nat \<times> str) list"
type_synonym mstate = "cp option \<times> str \<times> groups"

fun rest :: "mstate \<Rightarrow> str" where
  "rest (p, xs, g) = xs"

text \<open>
  The backtracking matcher, as the list of the states it can end in, in the order in
  which backtracking tries them: the head is the match the engine reports. \<open>^\<close> holds at
  the start of the text and after a newline, \<open>$\<close> at the end of the text and before a
  newline. An iteration of \<open>*\<close> that consumes nothing is not repeated.
\<close>

function ms :: "rx \<Rightarrow> mstate \<Rightarrow> mstate list" where
  "ms Eps s = [s]"
| "ms (Chr c) (p, xs, g) =
     (case xs of [] \<Rightarrow> [] | x # xs' \<Rightarrow> if x = c then [(Some x, xs', g)] else [])"
| "ms Space (p, xs, g) =
     (case xs of [] \<Rightarrow> [] | x # xs' \<Rightarrow> if is_space x then [(Some x, xs', g)] else [])"
| "ms Bol (p, xs, g) = (if p = None \<or> p = Some nl then [(p, xs, g)] else [])"
| "ms Eol (p, xs, g) =
     (case xs of [] \<Rightarrow> [(p, xs, g)] | x # xs' \<Rightarrow> if x = nl then [(p, xs, g)] else [])"
| "ms (Seq a b) s = concat (map (ms b) (ms a s))"
| "ms (Alt a b) s = ms a s @ ms b s"
| "ms (Opt a) s = ms a s @ [s]"
| "ms (Star a) s =
     concat (map (\<lambda>s'. if length (rest s') < length (rest s) then ms (Star a) s' else [])
                 (ms a s)) @ [s]"
| "ms (Grp n a) (p, xs, g) =
     map (\<lambda>(p', ys, g'). (p', ys, (n, take (length xs - length ys) xs) # g'))
         (ms a (p, xs, g))"
  by pat_completeness auto
termination
  by (relation "measures [\<lambda>(r, s). size r, \<lambda>(r, s). length (rest s)]") auto

declare ms.simps(9) [simp del]

text \<open>A literal string is the sequence of its characters.\<close>

fun lit :: "str \<Rightarrow> rx" where
  "lit [] = Eps"
| "lit (c # cs) = Seq (Chr c) (lit cs)"

text \<open>
  The first match at a position. \<open>must_advance\<close> is set after an empty match: the next
  match may not be empty at the same position (CPython 3.7 and later).
\<close>

definition match_at :: "rx \<Rightarrow> bool \<Rightarrow> cp option \<Rightarrow> str \<Rightarrow> mstate option" where
  "match_at r must_advance prev xs =
     (case filter (\<lambda>s'. \<not> must_advance \<or> length (rest s') < length xs) (ms r (prev, xs, [])) of
        [] \<Rightarrow> None
      | s' # _ \<Rightarrow> Some s')"

text \<open>
  A replacement template: literal characters and group references \<open>\n\<close>. A group that
  did not take part in the match expands to the empty string.
\<close>

datatype ritem = RChr cp | RGrp nat

fun expand :: "ritem list \<Rightarrow> groups \<Rightarrow> str" where
  "expand [] g = []"
| "expand (RChr c # t) g = c # expand t g"
| "expand (RGrp n # t) g = (case map_of g n of None \<Rightarrow> [] | Some m \<Rightarrow> m) @ expand t g"

text \<open>The matcher only moves forward: every end state is a suffix of the start state.\<close>

lemma ms_suffix: "s' \<in> set (ms r s) \<Longrightarrow> suffix (rest s') (rest s)"
proof (induction r s arbitrary: s' rule: ms.induct)
  case (1 s)
  then show ?case by simp
next
  case (2 c p xs g)
  then show ?case by (cases xs) (auto split: if_splits simp: suffix_Cons)
next
  case (3 p xs g)
  then show ?case by (cases xs) (auto split: if_splits simp: suffix_Cons)
next
  case (4 p xs g)
  then show ?case by (simp split: if_splits)
next
  case (5 p xs g)
  then show ?case by (cases xs) (simp_all split: if_splits)
next
  case (6 a b s)
  then obtain m where m: "m \<in> set (ms a s)" and s': "s' \<in> set (ms b m)"
    by auto
  from "6.IH"(1)[OF m] "6.IH"(2)[OF m s'] show ?case
    by (rule suffix_order.trans[rotated])
next
  case (7 a b s)
  from "7.prems" have "s' \<in> set (ms a s) \<or> s' \<in> set (ms b s)" by simp
  then show ?case using "7.IH" by blast
next
  case (8 a s)
  from "8.prems" have "s' \<in> set (ms a s) \<or> s' = s" by auto
  then show ?case using "8.IH" by (metis suffix_order.refl)
next
  case (9 a s)
  show ?case
  proof (cases "s' = s")
    case True then show ?thesis by simp
  next
    case False
    from "9.prems" have "s' \<in> set (concat (map (\<lambda>s'. if length (rest s') < length (rest s)
        then ms (Star a) s' else []) (ms a s)) @ [s])"
      by (subst (asm) ms.simps(9))
    with False obtain m where m: "m \<in> set (ms a s)"
      and lt: "length (rest m) < length (rest s)" and s': "s' \<in> set (ms (Star a) m)"
      by (auto split: if_splits simp del: ms.simps(9))
    from "9.IH"(1)[OF m] "9.IH"(2)[OF m lt s'] show ?thesis
      by (rule suffix_order.trans[rotated])
  qed
next
  case (10 n a p xs g)
  from "10.prems" obtain p' ys g' where "(p', ys, g') \<in> set (ms a (p, xs, g))"
    and "s' = (p', ys, (n, take (length xs - length ys) xs) # g')"
    by auto
  with "10.IH"[of "(p', ys, g')"] show ?case by simp
qed

lemma match_at_mem:
  "match_at r adv prev xs = Some s' \<Longrightarrow>
     s' \<in> set (ms r (prev, xs, [])) \<and> (adv \<longrightarrow> length (rest s') < length xs)"
proof -
  assume "match_at r adv prev xs = Some s'"
  then obtain ss where
    "filter (\<lambda>s'. \<not> adv \<or> length (rest s') < length xs) (ms r (prev, xs, [])) = s' # ss"
    by (auto simp: match_at_def split: list.splits)
  then have "s' \<in> set (filter (\<lambda>s'. \<not> adv \<or> length (rest s') < length xs) (ms r (prev, xs, [])))"
    by simp
  then show ?thesis by simp
qed

lemma match_at_le: "match_at r adv prev xs = Some (p', ys, g') \<Longrightarrow> length ys \<le> length xs"
  using match_at_mem[of r adv prev xs "(p', ys, g')"]
    ms_suffix[of "(p', ys, g')" r "(prev, xs, [])"]
  by (simp add: suffix_length_le)

lemma match_at_lt:
  "match_at r True prev xs = Some (p', ys, g') \<Longrightarrow> length ys < length xs"
  using match_at_mem[of r True prev xs "(p', ys, g')"] by simp

section \<open>Substitution: \<open>re.sub\<close>\<close>

text \<open>
  \<open>re.sub\<close> with \<open>count = 0\<close>: search from the end of the last match, copy the text
  before the match, append the expanded replacement, go on behind the match; the text
  after the last match is copied.
\<close>

function sub_from :: "rx \<Rightarrow> ritem list \<Rightarrow> bool \<Rightarrow> cp option \<Rightarrow> str \<Rightarrow> str" where
  "sub_from r rep must_advance prev xs =
     (case match_at r must_advance prev xs of
        Some (p', ys, g) \<Rightarrow> expand rep g @ sub_from r rep (length ys = length xs) p' ys
      | None \<Rightarrow>
          (case xs of
             [] \<Rightarrow> []
           | x # xs' \<Rightarrow> x # sub_from r rep False (Some x) xs'))"
  by pat_completeness auto
termination
proof (relation "measure (\<lambda>(r, rep, adv, prev, xs). 2 * length xs + (if adv then 0 else 1))")
  show "wf (measure (\<lambda>(r, rep, adv, prev, xs). 2 * length xs + (if adv then 0 else 1)))"
    by simp
next
  fix r :: rx and rep :: "ritem list" and adv :: bool and prev :: "cp option"
    and xs ys :: str and s' :: mstate and p' :: "cp option" and t :: "str \<times> groups"
    and g :: groups
  assume m: "match_at r adv prev xs = Some s'" and s': "(p', t) = s'" and t: "(ys, g) = t"
  then have m': "match_at r adv prev xs = Some (p', ys, g)" by simp
  have le: "length ys \<le> length xs" using m' by (rule match_at_le)
  have "adv \<Longrightarrow> length ys < length xs" using m' match_at_lt by (cases adv) simp_all
  with le show "((r, rep, length ys = length xs, p', ys), (r, rep, adv, prev, xs))
      \<in> measure (\<lambda>(r, rep, adv, prev, xs). 2 * length xs + (if adv then 0 else 1))"
    by (cases adv) auto
next
  fix r :: rx and rep :: "ritem list" and adv :: bool and prev :: "cp option"
    and xs xs' :: str and x :: cp
  assume "match_at r adv prev xs = None" and "xs = x # xs'"
  then show "((r, rep, False, Some x, xs'), (r, rep, adv, prev, xs))
      \<in> measure (\<lambda>(r, rep, adv, prev, xs). 2 * length xs + (if adv then 0 else 1))"
    by simp
qed

declare sub_from.simps [simp del]

definition re_sub :: "rx \<Rightarrow> ritem list \<Rightarrow> str \<Rightarrow> str" where
  "re_sub r rep s = sub_from r rep False None s"

section \<open>The script \<open>strip-recommended.py\<close>\<close>

subsection \<open>The three substitutions\<close>

text \<open>\<open>\s*\<close>\<close>

definition spaces :: rx where "spaces = Star Space"

text \<open>The pattern \<^verbatim>\<open>^\s*recommended:\s*(?:true|false),?\s*$\n\<close> of line 8.\<close>

definition pat_flag :: rx where
  "pat_flag =
     Seq Bol (Seq spaces (Seq (lit (cps ''recommended:'')) (Seq spaces
       (Seq (Alt (lit (cps ''true'')) (lit (cps ''false'')))
         (Seq (Opt (Chr comma)) (Seq spaces (Seq Eol (Chr nl))))))))"

text \<open>The pattern \<^verbatim>\<open>,\s*,\<close> of line 11.\<close>

definition pat_commas :: rx where
  "pat_commas = Seq (Chr comma) (Seq spaces (Chr comma))"

text \<open>The pattern \<^verbatim>\<open>,(\s*})\<close> of line 12.\<close>

definition pat_brace :: rx where
  "pat_brace = Seq (Chr comma) (Grp 1 (Seq spaces (Chr rbrace)))"

text \<open>Line 8: the line removal, with the empty replacement.\<close>

definition strip_lines :: "str \<Rightarrow> str" where
  "strip_lines content = re_sub pat_flag [] content"

text \<open>Line 11: the comma collapse, with the replacement \<^verbatim>\<open>,\<close>.\<close>

definition collapse_commas :: "str \<Rightarrow> str" where
  "collapse_commas content = re_sub pat_commas [RChr comma] content"

text \<open>Line 12: the trailing-comma cleanup, with the replacement \<^verbatim>\<open>\1\<close>.\<close>

definition strip_trailing :: "str \<Rightarrow> str" where
  "strip_trailing content = re_sub pat_brace [RGrp 1] content"

text \<open>Lines 8 to 12 in sequence.\<close>

definition transform :: "str \<Rightarrow> str" where
  "transform content = strip_trailing (collapse_commas (strip_lines content))"

subsection \<open>Reading and writing the file\<close>

text \<open>
  A file holds bytes. Reading in text mode with \<open>encoding='utf-8'\<close> decodes them
  strictly (an overlong form, a surrogate or a value above \<open>0x10FFFF\<close> is an error) and,
  with the default \<open>newline=None\<close>, turns \<open>\r\n\<close> and \<open>\r\<close> into \<open>\n\<close>. Writing with
  \<open>newline='\n'\<close> encodes the text and translates nothing.
\<close>

type_synonym byte = "8 word"

fun universal_newlines :: "str \<Rightarrow> str" where
  "universal_newlines [] = []"
| "universal_newlines [x] = [if x = cr then nl else x]"
| "universal_newlines (x # y # ys) =
     (if x = cr \<and> y = nl then nl # universal_newlines ys
      else if x = cr then nl # universal_newlines (y # ys)
      else x # universal_newlines (y # ys))"

definition cont :: "int \<Rightarrow> bool" where
  "cont c \<longleftrightarrow> 128 \<le> c \<and> c \<le> 191"

fun decode_ints :: "int list \<Rightarrow> str option" where
  "decode_ints [] = Some []"
| "decode_ints (b # bs) =
     (if b < 128 then map_option ((#) b) (decode_ints bs)
      else if 194 \<le> b \<and> b \<le> 223 then
        (case bs of
           c1 # r \<Rightarrow>
             if cont c1
             then map_option ((#) ((b - 192) * 64 + (c1 - 128))) (decode_ints r)
             else None
         | _ \<Rightarrow> None)
      else if 224 \<le> b \<and> b \<le> 239 then
        (case bs of
           c1 # c2 # r \<Rightarrow>
             if cont c1 \<and> cont c2 \<and> (b = 224 \<longrightarrow> 160 \<le> c1) \<and> (b = 237 \<longrightarrow> c1 \<le> 159)
             then map_option ((#) ((b - 224) * 4096 + (c1 - 128) * 64 + (c2 - 128)))
                    (decode_ints r)
             else None
         | _ \<Rightarrow> None)
      else if 240 \<le> b \<and> b \<le> 244 then
        (case bs of
           c1 # c2 # c3 # r \<Rightarrow>
             if cont c1 \<and> cont c2 \<and> cont c3 \<and>
                (b = 240 \<longrightarrow> 144 \<le> c1) \<and> (b = 244 \<longrightarrow> c1 \<le> 143)
             then map_option
                    ((#) ((b - 240) * 262144 + (c1 - 128) * 4096 + (c2 - 128) * 64 +
                          (c3 - 128)))
                    (decode_ints r)
             else None
         | _ \<Rightarrow> None)
      else None)"

definition utf8_decode :: "byte list \<Rightarrow> str option" where
  "utf8_decode bs = decode_ints (map uint bs)"

definition encode_cp :: "cp \<Rightarrow> int list option" where
  "encode_cp c =
     (if 0 \<le> c \<and> c < 128 then Some [c]
      else if 128 \<le> c \<and> c < 2048 then Some [192 + c div 64, 128 + c mod 64]
      else if 2048 \<le> c \<and> c < 65536 then
        (if 55296 \<le> c \<and> c \<le> 57343 then None
         else Some [224 + c div 4096, 128 + c div 64 mod 64, 128 + c mod 64])
      else if 65536 \<le> c \<and> c \<le> 1114111 then
        Some [240 + c div 262144, 128 + c div 4096 mod 64, 128 + c div 64 mod 64,
              128 + c mod 64]
      else None)"

fun utf8_encode :: "str \<Rightarrow> byte list option" where
  "utf8_encode [] = Some []"
| "utf8_encode (c # cs) =
     (case encode_cp c of
        None \<Rightarrow> None
      | Some bs \<Rightarrow> map_option ((@) (map word_of_int bs)) (utf8_encode cs))"

text \<open>
  The exceptions the run can end with, and the part of the world the script touches: the
  file at \<open>src/lib/models.ts\<close> (absent, or present with its bytes and permissions), the
  lines printed so far, and whether the encoding of standard output has the check mark
  of the confirmation line.
\<close>

datatype error = FileNotFoundError | PermissionError | UnicodeDecodeError | UnicodeEncodeError

record fstate =
  bytes :: "byte list"
  readable :: bool
  writable :: bool

record world =
  target :: "fstate option"
  stdout :: "str list"
  stdout_encodable :: bool

text \<open>Lines 4 and 5: open for reading, read and decode.\<close>

definition read_source :: "world \<Rightarrow> error + str" where
  "read_source w =
     (case target w of
        None \<Rightarrow> Inl FileNotFoundError
      | Some f \<Rightarrow>
          if \<not> readable f then Inl PermissionError
          else (case utf8_decode (bytes f) of
                  None \<Rightarrow> Inl UnicodeDecodeError
                | Some t \<Rightarrow> Inr (universal_newlines t)))"

text \<open>
  Lines 15 and 16: opening for writing truncates the file (and creates it when absent);
  the text is encoded and written.
\<close>

definition write_target :: "str \<Rightarrow> world \<Rightarrow> (error + unit) \<times> world" where
  "write_target t w =
     (case target w of
        Some f \<Rightarrow>
          if \<not> writable f then (Inl PermissionError, w)
          else (case utf8_encode t of
                  None \<Rightarrow> (Inl UnicodeEncodeError, w\<lparr>target := Some (f\<lparr>bytes := []\<rparr>)\<rparr>)
                | Some bs \<Rightarrow> (Inr (), w\<lparr>target := Some (f\<lparr>bytes := bs\<rparr>)\<rparr>))
      | None \<Rightarrow>
          (case utf8_encode t of
             None \<Rightarrow>
               (Inl UnicodeEncodeError,
                w\<lparr>target := Some \<lparr>bytes = [], readable = True, writable = True\<rparr>\<rparr>)
           | Some bs \<Rightarrow>
               (Inr (), w\<lparr>target := Some \<lparr>bytes = bs, readable = True, writable = True\<rparr>\<rparr>)))"

text \<open>Line 18: the confirmation line, a check mark (U+2705) and the message.\<close>

definition confirmation :: str where
  "confirmation =
     9989 # cps '' Stripped all '' @ [39] @ cps ''recommended'' @ [39] @
       cps '' flags from models.ts''"

definition print_line :: "str \<Rightarrow> world \<Rightarrow> (error + unit) \<times> world" where
  "print_line t w =
     (if stdout_encodable w then (Inr (), w\<lparr>stdout := stdout w @ [t]\<rparr>)
      else (Inl UnicodeEncodeError, w))"

text \<open>
  The whole script. There is no \<open>try\<close>: the first exception ends the run, and the
  interpreter exits with status 1; without an exception it exits with status 0.
\<close>

definition main :: "world \<Rightarrow> (error + unit) \<times> world" where
  "main w =
     (case read_source w of
        Inl e \<Rightarrow> (Inl e, w)
      | Inr content \<Rightarrow>
          (case write_target (transform content) w of
             (Inl e, w') \<Rightarrow> (Inl e, w')
           | (Inr u, w') \<Rightarrow> print_line confirmation w'))"

definition exit_status :: "(error + unit) \<times> world \<Rightarrow> int" where
  "exit_status r = (case fst r of Inl e \<Rightarrow> 1 | Inr u \<Rightarrow> 0)"

definition world_of :: "fstate option \<Rightarrow> world" where
  "world_of f = \<lparr>target = f, stdout = [], stdout_encodable = True\<rparr>"

definition file_of :: "byte list \<Rightarrow> bool \<Rightarrow> bool \<Rightarrow> fstate" where
  "file_of bs r w = \<lparr>bytes = bs, readable = r, writable = w\<rparr>"

section \<open>Notions the properties are stated with\<close>

subsection \<open>Lines\<close>

text \<open>
  The lines of a text, as \<open>str.split('\n')\<close> gives them: all but the last are terminated
  by a newline in the text. \<open>trim\<close> is \<open>str.strip\<close>. A flag line is a line that, trimmed,
  is one of the four texts of the specification.
\<close>

fun split_lines :: "str \<Rightarrow> str list" where
  "split_lines [] = [[]]"
| "split_lines (x # xs) =
     (if x = nl then [] # split_lines xs
      else (case split_lines xs of [] \<Rightarrow> [[x]] | l # ls \<Rightarrow> (x # l) # ls))"

definition terminated_lines :: "str \<Rightarrow> str list" where
  "terminated_lines s = butlast (split_lines s)"

definition trim :: "str \<Rightarrow> str" where
  "trim xs = rev (dropWhile is_space (rev (dropWhile is_space xs)))"

definition flag_line :: "str \<Rightarrow> bool" where
  "flag_line l \<longleftrightarrow>
     trim l \<in> set [cps ''recommended: true'', cps ''recommended: true,'',
                   cps ''recommended: false'', cps ''recommended: false,'']"

subsection \<open>What the line pattern matches, without the regular expression\<close>

text \<open>
  \<open>bol p\<close>: a position whose previous character is \<open>p\<close> is the start of a line.
  \<open>flag_ends xs\<close> lists what can follow a match of the line pattern at the start of
  \<open>xs\<close>, in the order of the matcher: whitespace, \<open>recommended:\<close>, whitespace, \<open>true\<close>
  or \<open>false\<close>, an optional comma, whitespace up to one of its newlines.
\<close>

definition bol :: "cp option \<Rightarrow> bool" where
  "bol p \<longleftrightarrow> p = None \<or> p = Some nl"

fun prev_after :: "cp option \<Rightarrow> str \<Rightarrow> cp option" where
  "prev_after p [] = p"
| "prev_after p (x # xs) = prev_after (Some x) xs"

fun strip_pre :: "str \<Rightarrow> str \<Rightarrow> str option" where
  "strip_pre [] xs = Some xs"
| "strip_pre (c # cs) [] = None"
| "strip_pre (c # cs) (x # xs) = (if x = c then strip_pre cs xs else None)"

fun nl_ends :: "str \<Rightarrow> str list" where
  "nl_ends [] = []"
| "nl_ends (x # xs) = (if is_space x then nl_ends xs @ (if x = nl then [xs] else []) else [])"

definition value_end :: "str \<Rightarrow> str option" where
  "value_end xs =
     (case strip_pre (cps ''true'') xs of
        Some r \<Rightarrow> Some r
      | None \<Rightarrow> strip_pre (cps ''false'') xs)"

fun opt_comma :: "str \<Rightarrow> str" where
  "opt_comma [] = []"
| "opt_comma (x # xs) = (if x = comma then xs else x # xs)"

definition flag_ends :: "str \<Rightarrow> str list" where
  "flag_ends xs =
     (case strip_pre (cps ''recommended:'') (dropWhile is_space xs) of
        None \<Rightarrow> []
      | Some r1 \<Rightarrow>
          (case value_end (dropWhile is_space r1) of
             None \<Rightarrow> []
           | Some r3 \<Rightarrow> nl_ends (opt_comma r3)))"

definition flag_value :: "str \<Rightarrow> bool" where
  "flag_value v \<longleftrightarrow> v \<in> set [cps ''true'', cps ''false'', cps ''true,'', cps ''false,'']"

text \<open>
  What a line removal may do to a text, read from the start of a line: copy a last line
  that has no newline, copy a line with its newline, or drop a block that consists of
  whitespace, \<open>recommended:\<close>, whitespace, \<open>true\<close> or \<open>false\<close> with or without a
  comma, whitespace and a newline. Whitespace includes newlines, so a block can span
  several lines; it always ends a line, so what follows starts a line again.
\<close>

inductive line_removal :: "str \<Rightarrow> str \<Rightarrow> bool" where
  last_line: "nl \<notin> set l \<Longrightarrow> line_removal l l"
| keep_line: "nl \<notin> set l \<Longrightarrow> line_removal r r' \<Longrightarrow> line_removal (l @ nl # r) (l @ nl # r')"
| drop_flag:
    "list_all is_space w1 \<Longrightarrow> list_all is_space w2 \<Longrightarrow> list_all is_space w3 \<Longrightarrow>
     flag_value v \<Longrightarrow> line_removal r r' \<Longrightarrow>
     line_removal (w1 @ cps ''recommended:'' @ w2 @ v @ w3 @ nl # r) r'"

text \<open>The tails of the line pattern, and the line removal from any position.\<close>

definition tail0 :: rx where "tail0 = Seq spaces (Seq Eol (Chr nl))"
definition tail1 :: rx where "tail1 = Seq (Opt (Chr comma)) tail0"
definition tail2 :: rx where
  "tail2 = Seq (Alt (lit (cps ''true'')) (lit (cps ''false''))) tail1"
definition tail3 :: rx where "tail3 = Seq spaces tail2"
definition tail4 :: rx where "tail4 = Seq (lit (cps ''recommended:'')) tail3"

definition strip_from :: "cp option \<Rightarrow> str \<Rightarrow> str" where
  "strip_from p xs = sub_from pat_flag [] False p xs"

subsection \<open>Clean texts\<close>

text \<open>
  \<open>flag_block_in p xs\<close>: somewhere in \<open>xs\<close> (whose previous character is \<open>p\<close>) the line
  pattern matches at the start of a line. \<open>comma_before c xs\<close>: somewhere in \<open>xs\<close> a comma
  is followed by whitespace and \<open>c\<close>. \<open>comma_open xs\<close>: \<open>xs\<close> ends in a comma followed
  only by whitespace. A text is clean when none of the three patterns matches in it.
\<close>

fun flag_block_in :: "cp option \<Rightarrow> str \<Rightarrow> bool" where
  "flag_block_in p [] = False"
| "flag_block_in p (x # xs) = ((bol p \<and> flag_ends (x # xs) \<noteq> []) \<or> flag_block_in (Some x) xs)"

fun comma_before :: "cp \<Rightarrow> str \<Rightarrow> bool" where
  "comma_before c [] = False"
| "comma_before c (x # xs) =
     ((x = comma \<and> (case dropWhile is_space xs of [] \<Rightarrow> False | y # ys \<Rightarrow> y = c))
      \<or> comma_before c xs)"

definition comma_open :: "str \<Rightarrow> bool" where
  "comma_open xs = (case dropWhile is_space (rev xs) of [] \<Rightarrow> False | c # _ \<Rightarrow> c = comma)"

definition clean :: "str \<Rightarrow> bool" where
  "clean s \<longleftrightarrow>
     \<not> flag_block_in None s \<and> \<not> comma_before comma s \<and> \<not> comma_before rbrace s"

section \<open>The matcher on the patterns of the script\<close>

text \<open>
  What the matcher returns on each of the three patterns, in terms of \<open>takeWhile\<close> and
  \<open>dropWhile\<close> on the text, and from that the equations by which each substitution
  walks through the text.
\<close>

subsection \<open>Whitespace runs\<close>

text \<open>
  \<open>\s*\<close> tries the longest run of whitespace first and then gives back one character
  at a time. When what follows cannot start with whitespace, only the longest run can
  lead to a match.
\<close>

lemma prev_after_append [simp]: "prev_after p (xs @ [x]) = Some x"
  by (induction xs arbitrary: p) simp_all

lemma ms_spaces_Nil: "ms spaces (p, [], g) = [(p, [], g)]"
  by (simp add: spaces_def ms.simps(9))

lemma ms_spaces_Cons:
  "ms spaces (p, x # xs, g) =
     (if is_space x then ms spaces (Some x, xs, g) @ [(p, x # xs, g)] else [(p, x # xs, g)])"
  by (simp add: spaces_def ms.simps(9)[of Space "(p, x # xs, g)"])

lemma ms_spaces_then:
  assumes R: "\<And>p x xs g. is_space x \<Longrightarrow> ms R (p, x # xs, g) = []"
  shows "ms (Seq spaces R) (p, xs, g) =
           ms R (prev_after p (takeWhile is_space xs), dropWhile is_space xs, g)"
proof (induction xs arbitrary: p)
  case Nil
  show ?case by (simp add: ms_spaces_Nil)
next
  case (Cons x xs)
  show ?case
  proof (cases "is_space x")
    case True
    have "ms (Seq spaces R) (p, x # xs, g) = ms (Seq spaces R) (Some x, xs, g) @ ms R (p, x # xs, g)"
      using True by (simp add: ms_spaces_Cons)
    then show ?thesis using True Cons[of "Some x"] R[OF True] by simp
  next
    case False
    then show ?thesis by (simp add: ms_spaces_Cons)
  qed
qed

lemma not_space_comma [simp]: "\<not> is_space comma" by (simp add: is_space_def comma_def)
lemma not_space_rbrace [simp]: "\<not> is_space rbrace" by (simp add: is_space_def rbrace_def)
lemma space_nl [simp]: "is_space nl" by (simp add: is_space_def nl_def)

lemma ms_Chr_space: "is_space x \<Longrightarrow> \<not> is_space c \<Longrightarrow> ms (Chr c) (p, x # xs, g) = []"
  by auto

lemma ms_spaces_Chr:
  assumes "\<not> is_space c"
  shows "ms (Seq spaces (Chr c)) (p, xs, g) =
     (case dropWhile is_space xs of [] \<Rightarrow> [] | y # ys \<Rightarrow> if y = c then [(Some c, ys, g)] else [])"
proof -
  have "ms (Seq spaces (Chr c)) (p, xs, g) =
          ms (Chr c) (prev_after p (takeWhile is_space xs), dropWhile is_space xs, g)"
    by (rule ms_spaces_then) (use assms in auto)
  then show ?thesis
    by (cases "dropWhile is_space xs") (simp_all del: ms.simps(6) dropWhile_eq_Nil_conv)
qed

lemma ms_pat_commas:
  "ms pat_commas (p, xs, g) =
     (case xs of [] \<Rightarrow> [] | x # xs' \<Rightarrow>
        if x = comma then
          (case dropWhile is_space xs' of [] \<Rightarrow> []
           | y # ys \<Rightarrow> if y = comma then [(Some comma, ys, g)] else [])
        else [])"
  by (cases xs)
     (simp_all add: pat_commas_def ms.simps(6)[of "Chr comma"] ms_spaces_Chr del: ms.simps(6))

subsection \<open>The comma collapse\<close>

text \<open>
  The pattern matches at a comma exactly when the first character behind the whitespace
  that follows it is a comma; the match ends behind that second comma.
\<close>

lemma length_dropWhile_tail: "dropWhile P xs = y # ys \<Longrightarrow> length ys < length xs"
proof -
  assume a: "dropWhile P xs = y # ys"
  have "length (dropWhile P xs) \<le> length xs" by (rule length_dropWhile_le)
  with a show ?thesis by simp
qed

lemma match_at_pat_commas:
  "match_at pat_commas adv p xs =
     (case xs of [] \<Rightarrow> None | x # xs' \<Rightarrow>
        if x = comma then
          (case dropWhile is_space xs' of [] \<Rightarrow> None
           | y # ys \<Rightarrow> if y = comma then Some (Some comma, ys, []) else None)
        else None)"
proof (cases xs)
  case Nil
  then show ?thesis by (simp add: match_at_def ms_pat_commas)
next
  case (Cons x xs')
  show ?thesis
  proof (cases "dropWhile is_space xs'")
    case Nil
    have "ms pat_commas (p, x # xs', []) = []"
      by (simp add: ms_pat_commas Nil)
    then show ?thesis unfolding Cons
      by (simp add: match_at_def Nil)
  next
    case d: (Cons y ys)
    from d have len: "length ys < length xs'" by (rule length_dropWhile_tail)
    have "ms pat_commas (p, x # xs', []) =
            (if x = comma \<and> y = comma then [(Some comma, ys, [])] else [])"
      by (simp add: ms_pat_commas d)
    then show ?thesis unfolding Cons using len
      by (simp add: match_at_def d)
  qed
qed

lemma cc_Nil: "sub_from pat_commas rep adv p [] = []"
  by (subst sub_from.simps) (simp add: match_at_pat_commas)

lemma cc_other:
  "x \<noteq> comma \<Longrightarrow>
     sub_from pat_commas rep adv p (x # xs) = x # sub_from pat_commas rep False (Some x) xs"
  by (subst sub_from.simps) (simp add: match_at_pat_commas)

lemma cc_pair:
  assumes "dropWhile is_space xs = comma # ys"
  shows "sub_from pat_commas rep adv p (comma # xs) =
           expand rep [] @ sub_from pat_commas rep False (Some comma) ys"
proof -
  from assms have "length ys < length xs" by (rule length_dropWhile_tail)
  with assms show ?thesis
    by (subst sub_from.simps) (simp add: match_at_pat_commas)
qed

lemma cc_single:
  assumes "\<And>ys. dropWhile is_space xs \<noteq> comma # ys"
  shows "sub_from pat_commas rep adv p (comma # xs) =
           comma # sub_from pat_commas rep False (Some comma) xs"
proof (cases "dropWhile is_space xs")
  case Nil
  then show ?thesis
    by (subst sub_from.simps) (simp add: match_at_pat_commas del: dropWhile_eq_Nil_conv)
next
  case (Cons y ys)
  with assms have "y \<noteq> comma" by auto
  with Cons show ?thesis
    by (subst sub_from.simps) (simp add: match_at_pat_commas)
qed

lemma cc_indep: "sub_from pat_commas rep adv p xs = sub_from pat_commas rep False None xs"
proof (induction xs arbitrary: adv p rule: length_induct)
  case (1 xs)
  show ?case
  proof (cases xs)
    case Nil
    then show ?thesis by (simp add: cc_Nil)
  next
    case (Cons x xs')
    show ?thesis
    proof (cases "x = comma")
      case False
      with Cons show ?thesis
        using 1[rule_format, of xs' False "Some x"] by (simp add: cc_other)
    next
      case True
      show ?thesis
      proof (cases "\<exists>ys. dropWhile is_space xs' = comma # ys")
        case True
        then obtain ys where d: "dropWhile is_space xs' = comma # ys" by blast
        then have "length ys < length xs" using Cons length_dropWhile_tail[OF d] by simp
        then show ?thesis using Cons \<open>x = comma\<close> d by (simp add: cc_pair[OF d])
      next
        case False
        then have "\<And>ys. dropWhile is_space xs' \<noteq> comma # ys" by blast
        then show ?thesis using Cons \<open>x = comma\<close> by (simp add: cc_single)
      qed
    qed
  qed
qed

lemma collapse_Nil: "collapse_commas [] = []"
  by (simp add: collapse_commas_def re_sub_def cc_Nil)

lemma collapse_other: "x \<noteq> comma \<Longrightarrow> collapse_commas (x # xs) = x # collapse_commas xs"
  by (simp add: collapse_commas_def re_sub_def cc_other cc_indep[of _ False "Some x"])

lemma collapse_pair:
  "dropWhile is_space xs = comma # ys \<Longrightarrow>
     collapse_commas (comma # xs) = comma # collapse_commas ys"
  by (simp add: collapse_commas_def re_sub_def cc_pair cc_indep[of _ False "Some comma"])

lemma collapse_single:
  "(\<And>ys. dropWhile is_space xs \<noteq> comma # ys) \<Longrightarrow>
     collapse_commas (comma # xs) = comma # collapse_commas xs"
  by (simp add: collapse_commas_def re_sub_def cc_single cc_indep[of _ False "Some comma"])

lemma dw_app: "dropWhile P xs \<noteq> [] \<Longrightarrow> dropWhile P (xs @ ys) = dropWhile P xs @ ys"
  by (induction xs) auto

lemma dw_app_all: "dropWhile P xs = [] \<Longrightarrow> dropWhile P (xs @ ys) = dropWhile P ys"
  by (induction xs) (auto split: if_splits)

lemma comma_open_append:
  "comma_open (a @ b) = (if list_all is_space b then comma_open a else comma_open b)"
proof (cases "list_all is_space b")
  case True
  then have "dropWhile is_space (rev b) = []" by (simp add: list_all_iff)
  then have "dropWhile is_space (rev b @ rev a) = dropWhile is_space (rev a)"
    by (rule dw_app_all)
  with True show ?thesis by (simp add: comma_open_def)
next
  case False
  then have ne: "dropWhile is_space (rev b) \<noteq> []" by (simp add: list_all_iff)
  then obtain c cs where d: "dropWhile is_space (rev b) = c # cs"
    by (cases "dropWhile is_space (rev b)") auto
  from ne have "dropWhile is_space (rev b @ rev a) = dropWhile is_space (rev b) @ rev a"
    by (rule dw_app)
  with False d show ?thesis by (simp add: comma_open_def)
qed

lemma comma_open_spaces: "list_all is_space b \<Longrightarrow> \<not> comma_open b"
proof -
  assume "list_all is_space b"
  then have "dropWhile is_space (rev b) = []" by (simp add: list_all_iff)
  then show ?thesis by (simp add: comma_open_def del: dropWhile_eq_Nil_conv)
qed

lemma collapse_append:
  "\<not> comma_open pre \<Longrightarrow> collapse_commas (pre @ r) = collapse_commas pre @ collapse_commas r"
proof (induction pre rule: length_induct)
  case (1 pre)
  show ?case
  proof (cases pre)
    case Nil
    then show ?thesis by (simp add: collapse_Nil)
  next
    case (Cons x pre')
    have sp: "\<not> (list_all is_space pre') \<Longrightarrow> comma_open pre' = comma_open pre"
    proof -
      assume a: "\<not> (list_all is_space pre')"
      have "comma_open ([x] @ pre') = comma_open pre'"
        unfolding comma_open_append[of "[x]" pre'] using a by (simp only: if_False)
      with Cons show ?thesis by simp
    qed
    show ?thesis
    proof (cases "x = comma")
      case False
      have "\<not> comma_open pre'"
      proof (cases "list_all is_space pre'")
        case True then show ?thesis by (rule comma_open_spaces)
      next
        case False with sp "1.prems" show ?thesis by simp
      qed
      with 1 Cons have "collapse_commas (pre' @ r) = collapse_commas pre' @ collapse_commas r"
        by simp
      with False Cons show ?thesis by (simp add: collapse_other)
    next
      case True
      have nsp: "\<not> (list_all is_space pre')"
      proof
        assume a: "list_all is_space pre'"
        have "comma_open ([x] @ pre')" unfolding comma_open_append using a True
          by (simp add: comma_open_def)
        with Cons "1.prems" show False by simp
      qed
      then obtain y ys where d: "dropWhile is_space pre' = y # ys"
        by (cases "dropWhile is_space pre'") (auto simp: list_all_iff)
      then have d': "dropWhile is_space (pre' @ r) = y # ys @ r"
        using dw_app[of is_space pre' r] by simp
      show ?thesis
      proof (cases "y = comma")
        case yc: True
        have pre'_eq: "pre' = takeWhile is_space pre' @ comma # ys"
          using d yc takeWhile_dropWhile_id[of is_space pre'] by simp
        have len: "length ys < length pre" using length_dropWhile_tail[OF d] Cons by simp
        have "pre = (comma # takeWhile is_space pre' @ [comma]) @ ys"
          using Cons True pre'_eq by simp
        then have co: "comma_open pre =
            (if list_all is_space ys then True else comma_open ys)"
          using comma_open_append[of "comma # takeWhile is_space pre' @ [comma]" ys]
          by (simp add: comma_open_def)
        with "1.prems" have "\<not> comma_open ys" by (simp split: if_splits)
        with 1 len have "collapse_commas (ys @ r) = collapse_commas ys @ collapse_commas r"
          by simp
        then show ?thesis using Cons True d d' yc
          by (simp add: collapse_pair[of pre' ys] collapse_pair[of "pre' @ r" "ys @ r"])
      next
        case yc: False
        have a: "\<And>zs. dropWhile is_space pre' \<noteq> comma # zs" using d yc by simp
        have b: "\<And>zs. dropWhile is_space (pre' @ r) \<noteq> comma # zs" using d' yc by simp
        have "\<not> comma_open pre'" using sp[OF nsp] "1.prems" by simp
        with 1 Cons have "collapse_commas (pre' @ r) = collapse_commas pre' @ collapse_commas r"
          by simp
        then show ?thesis using Cons True
          by (simp add: collapse_single[OF a] collapse_single[OF b])
      qed
    qed
  qed
qed

lemma collapse_replicate:
  "collapse_commas (replicate n comma) = replicate ((n + 1) div 2) comma"
proof (induction n rule: less_induct)
  case (less n)
  show ?case
  proof (cases n)
    case 0
    then show ?thesis by (simp add: collapse_Nil)
  next
    case (Suc m)
    show ?thesis
    proof (cases m)
      case 0
      with Suc show ?thesis by (simp add: collapse_single collapse_Nil)
    next
      case (Suc k)
      have "dropWhile is_space (replicate (Suc k) comma) = comma # replicate k comma"
        by simp
      then have "collapse_commas (comma # replicate (Suc k) comma) =
                   comma # collapse_commas (replicate k comma)"
        by (rule collapse_pair)
      moreover have "collapse_commas (replicate k comma) = replicate ((k + 1) div 2) comma"
        using less[of k] Suc \<open>n = Suc m\<close> by simp
      ultimately show ?thesis using Suc \<open>n = Suc m\<close> by simp
    qed
  qed
qed

text \<open>
  C5: the comma-collapse step \<open>collapse_commas\<close> is one left-to-right pass over
  non-overlapping matches. An occurrence of a comma, whitespace \<open>ws\<close> and a comma is
  replaced by a single comma and the pass goes on behind it, whenever the text \<open>pre\<close>
  before it does not itself end in a comma followed only by whitespace (such a comma would
  start the match one step earlier). A run of \<open>n\<close> commas becomes a run of
  \<open>(n + 1) div 2\<close> commas: from three commas on, more than one is left.
\<close>

theorem C5_comma_collapse:
  "(\<not> comma_open pre \<and> list_all is_space ws \<longrightarrow>
      collapse_commas (pre @ comma # ws @ comma # post) =
        collapse_commas pre @ comma # collapse_commas post) \<and>
   collapse_commas (replicate n comma) = replicate ((n + 1) div 2) comma \<and>
   (3 \<le> n \<longrightarrow> collapse_commas (replicate n comma) \<noteq> [comma])"
proof (intro conjI impI)
  assume a: "\<not> comma_open pre \<and> list_all is_space ws"
  then have "dropWhile is_space (ws @ comma # post) = comma # post"
    by (simp add: dropWhile_append list_all_iff)
  then have "collapse_commas (comma # ws @ comma # post) = comma # collapse_commas post"
    by (rule collapse_pair)
  with a show "collapse_commas (pre @ comma # ws @ comma # post) =
        collapse_commas pre @ comma # collapse_commas post"
    by (simp add: collapse_append)
next
  show r: "collapse_commas (replicate n comma) = replicate ((n + 1) div 2) comma"
    by (rule collapse_replicate)
  assume "3 \<le> n"
  then have "2 \<le> (n + 1) div 2" by simp
  then have "length (replicate ((n + 1) div 2) comma) \<noteq> length [comma]" by simp
  then show "collapse_commas (replicate n comma) \<noteq> [comma]" unfolding r by metis
qed

theorem C5_comma_collapse_witness:
  "collapse_commas (cps ''a: 1, ,b'') = cps ''a: 1,b'' \<and>
   collapse_commas (cps '',,,'') = cps '',,''"
proof -
  have r3: "replicate 3 comma = [comma, comma, comma]" by (simp add: numeral_3_eq_3)
  have "(3 + 1) div 2 = Suc (Suc 0)" by simp
  then have r2: "replicate ((3 + 1) div 2) comma = [comma, comma]" by (simp only: replicate.simps)
  show ?thesis
    using C5_comma_collapse[of "cps ''a: 1''" "cps '' ''" "cps ''b''" 3] unfolding r3 r2
    by (simp add: cps_def comma_open_def is_space_def comma_def collapse_other collapse_Nil)
qed

subsection \<open>The trailing-comma cleanup\<close>

text \<open>
  The pattern matches at a comma exactly when the first character behind the whitespace
  that follows it is a closing brace; group 1 is that whitespace and the brace.
\<close>

lemma ms_pat_brace:
  "ms pat_brace (p, xs, g) =
     (case xs of [] \<Rightarrow> [] | x # xs' \<Rightarrow>
        if x = comma then
          (case dropWhile is_space xs' of [] \<Rightarrow> []
           | y # ys \<Rightarrow>
               if y = rbrace
               then [(Some rbrace, ys, (1, takeWhile is_space xs' @ [rbrace]) # g)]
               else [])
        else [])"
proof (cases xs)
  case Nil
  then show ?thesis by (simp add: pat_brace_def ms.simps(6)[of "Chr comma"] del: ms.simps(6))
next
  case (Cons x xs')
  show ?thesis
  proof (cases "dropWhile is_space xs'")
    case Nil
    then show ?thesis unfolding Cons
      by (simp add: pat_brace_def ms.simps(6)[of "Chr comma"] ms_spaces_Chr
          del: ms.simps(6) dropWhile_eq_Nil_conv)
  next
    case d: (Cons y ys)
    have "xs' = takeWhile is_space xs' @ y # ys"
      using takeWhile_dropWhile_id[of is_space xs'] d by simp
    then have "take (length xs' - length ys) xs' = takeWhile is_space xs' @ [y]"
      by (metis append.assoc append_Cons append_Nil append_eq_conv_conj diff_add_inverse2
          length_append)
    with d show ?thesis unfolding Cons
      by (simp add: pat_brace_def ms.simps(6)[of "Chr comma"] ms_spaces_Chr
          del: ms.simps(6))
  qed
qed

lemma match_at_pat_brace:
  "match_at pat_brace adv p xs =
     (case xs of [] \<Rightarrow> None | x # xs' \<Rightarrow>
        if x = comma then
          (case dropWhile is_space xs' of [] \<Rightarrow> None
           | y # ys \<Rightarrow>
               if y = rbrace
               then Some (Some rbrace, ys, [(1, takeWhile is_space xs' @ [rbrace])])
               else None)
        else None)"
proof (cases xs)
  case Nil
  then show ?thesis by (simp add: match_at_def ms_pat_brace)
next
  case (Cons x xs')
  show ?thesis
  proof (cases "dropWhile is_space xs'")
    case Nil
    have "ms pat_brace (p, x # xs', []) = []"
      by (simp add: ms_pat_brace Nil)
    then show ?thesis unfolding Cons
      by (simp add: match_at_def Nil)
  next
    case d: (Cons y ys)
    from d have len: "length ys < length xs'" by (rule length_dropWhile_tail)
    have "ms pat_brace (p, x # xs', []) =
            (if x = comma \<and> y = rbrace
             then [(Some rbrace, ys, [(1, takeWhile is_space xs' @ [rbrace])])] else [])"
      by (simp add: ms_pat_brace d)
    then show ?thesis unfolding Cons using len
      by (simp add: match_at_def d)
  qed
qed

lemma tb_Nil: "sub_from pat_brace rep adv p [] = []"
  by (subst sub_from.simps) (simp add: match_at_pat_brace)

lemma tb_other:
  "x \<noteq> comma \<Longrightarrow>
     sub_from pat_brace rep adv p (x # xs) = x # sub_from pat_brace rep False (Some x) xs"
  by (subst sub_from.simps) (simp add: match_at_pat_brace)

lemma tb_match:
  assumes "dropWhile is_space xs = rbrace # ys"
  shows "sub_from pat_brace rep adv p (comma # xs) =
           expand rep [(1, takeWhile is_space xs @ [rbrace])] @
           sub_from pat_brace rep False (Some rbrace) ys"
proof -
  from assms have "length ys < length xs" by (rule length_dropWhile_tail)
  with assms show ?thesis
    by (subst sub_from.simps) (simp add: match_at_pat_brace)
qed

lemma tb_single:
  assumes "\<And>ys. dropWhile is_space xs \<noteq> rbrace # ys"
  shows "sub_from pat_brace rep adv p (comma # xs) =
           comma # sub_from pat_brace rep False (Some comma) xs"
proof (cases "dropWhile is_space xs")
  case Nil
  then show ?thesis
    by (subst sub_from.simps) (simp add: match_at_pat_brace del: dropWhile_eq_Nil_conv)
next
  case (Cons y ys)
  with assms have "y \<noteq> rbrace" by auto
  with Cons show ?thesis
    by (subst sub_from.simps) (simp add: match_at_pat_brace)
qed

lemma tb_indep: "sub_from pat_brace rep adv p xs = sub_from pat_brace rep False None xs"
proof (cases xs)
  case Nil
  then show ?thesis by (simp add: tb_Nil)
next
  case (Cons x xs')
  show ?thesis
  proof (cases "x = comma")
    case False
    with Cons show ?thesis by (simp add: tb_other)
  next
    case True
    show ?thesis
    proof (cases "\<exists>ys. dropWhile is_space xs' = rbrace # ys")
      case True
      then obtain ys where d: "dropWhile is_space xs' = rbrace # ys" by blast
      then show ?thesis using Cons \<open>x = comma\<close> by (simp add: tb_match[OF d])
    next
      case False
      then have "\<And>ys. dropWhile is_space xs' \<noteq> rbrace # ys" by blast
      then show ?thesis using Cons \<open>x = comma\<close> by (simp add: tb_single)
    qed
  qed
qed

lemma trailing_Nil: "strip_trailing [] = []"
  by (simp add: strip_trailing_def re_sub_def tb_Nil)

lemma trailing_other: "x \<noteq> comma \<Longrightarrow> strip_trailing (x # xs) = x # strip_trailing xs"
  by (simp add: strip_trailing_def re_sub_def tb_other tb_indep[of _ False "Some x"])

lemma trailing_match:
  "dropWhile is_space xs = rbrace # ys \<Longrightarrow>
     strip_trailing (comma # xs) = takeWhile is_space xs @ rbrace # strip_trailing ys"
  by (simp add: strip_trailing_def re_sub_def tb_match tb_indep[of _ False "Some rbrace"])

lemma trailing_single:
  "(\<And>ys. dropWhile is_space xs \<noteq> rbrace # ys) \<Longrightarrow>
     strip_trailing (comma # xs) = comma # strip_trailing xs"
  by (simp add: strip_trailing_def re_sub_def tb_single tb_indep[of _ False "Some comma"])

lemma trailing_append_comma:
  "strip_trailing (pre @ comma # r) = strip_trailing pre @ strip_trailing (comma # r)"
proof (induction pre rule: length_induct)
  case (1 pre)
  show ?case
  proof (cases pre)
    case Nil
    then show ?thesis by (simp add: trailing_Nil)
  next
    case (Cons x pre')
    show ?thesis
    proof (cases "x = comma")
      case False
      with 1 Cons show ?thesis by (simp add: trailing_other)
    next
      case True
      show ?thesis
      proof (cases "dropWhile is_space pre'")
        case Nil
        then have "dropWhile is_space (pre' @ comma # r) = comma # r"
          using dw_app_all[of is_space pre' "comma # r"] by simp
        then have a: "\<And>zs. dropWhile is_space (pre' @ comma # r) \<noteq> rbrace # zs"
          by (simp add: comma_def rbrace_def)
        have b: "\<And>zs. dropWhile is_space pre' \<noteq> rbrace # zs" unfolding Nil by simp
        have "strip_trailing (pre' @ comma # r) = strip_trailing pre' @ strip_trailing (comma # r)"
          using 1 Cons by simp
        then show ?thesis using Cons True
          by (simp add: trailing_single[OF a] trailing_single[OF b])
      next
        case d: (Cons y ys)
        then have d': "dropWhile is_space (pre' @ comma # r) = y # ys @ comma # r"
          using dw_app[of is_space pre' "comma # r"] by simp
        have tw: "takeWhile is_space (pre' @ comma # r) = takeWhile is_space pre'"
          using d by (metis list.distinct(1) dropWhile_eq_Nil_conv takeWhile_append1)
        show ?thesis
        proof (cases "y = rbrace")
          case yb: True
          have len: "length ys < length pre" using length_dropWhile_tail[OF d] Cons by simp
          with 1 have "strip_trailing (ys @ comma # r) = strip_trailing ys @ strip_trailing (comma # r)"
            by simp
          then show ?thesis using Cons True d d' yb tw
            by (simp add: trailing_match[of pre' ys] trailing_match[of "pre' @ comma # r" "ys @ comma # r"])
        next
          case yb: False
          have a: "\<And>zs. dropWhile is_space pre' \<noteq> rbrace # zs" using d yb by simp
          have b: "\<And>zs. dropWhile is_space (pre' @ comma # r) \<noteq> rbrace # zs"
            using d' yb by simp
          have "strip_trailing (pre' @ comma # r) = strip_trailing pre' @ strip_trailing (comma # r)"
            using 1 Cons by simp
          then show ?thesis using Cons True
            by (simp add: trailing_single[OF a] trailing_single[OF b])
        qed
      qed
    qed
  qed
qed

text \<open>
  C6: in the trailing-comma step \<open>strip_trailing\<close>, every occurrence of a comma,
  whitespace \<open>ws\<close> and a closing brace loses the comma and keeps the whitespace and the
  brace, whatever stands before (\<open>pre\<close>) and behind (\<open>post\<close>); both are processed
  by the same pass.
\<close>

theorem C6_trailing_comma:
  "list_all is_space ws \<Longrightarrow>
     strip_trailing (pre @ comma # ws @ rbrace # post) =
       strip_trailing pre @ ws @ rbrace # strip_trailing post"
proof -
  assume a: "list_all is_space ws"
  then have "dropWhile is_space ws = []" by (simp add: list_all_iff)
  then have d: "dropWhile is_space (ws @ rbrace # post) = rbrace # post"
    using dw_app_all[of is_space ws "rbrace # post"] by simp
  have tw: "takeWhile is_space (ws @ rbrace # post) = ws"
    using a by (simp add: list_all_iff)
  have "strip_trailing (comma # ws @ rbrace # post) = ws @ rbrace # strip_trailing post"
    using trailing_match[OF d] tw by simp
  then show ?thesis by (simp add: trailing_append_comma)
qed

theorem C6_trailing_comma_witness:
  "list_all is_space (cps ''\<newline>  '') \<and>
   strip_trailing (cps ''{a: 1,\<newline>  }, b'') = cps ''{a: 1\<newline>  }, b''"
proof -
  have h: "list_all is_space (cps ''\<newline>  '')" by code_simp
  have e1: "strip_trailing (cps ''{a: 1'') = cps ''{a: 1''" by code_simp
  have e2: "strip_trailing (cps '', b'') = cps '', b''" by code_simp
  from C6_trailing_comma[OF h, of "cps ''{a: 1''" "cps '', b''"] h show ?thesis
    unfolding e1 e2 by (simp add: cps_def comma_def rbrace_def)
qed

subsection \<open>The line pattern\<close>

text \<open>
  The line pattern matches at the start of a line exactly when \<open>flag_ends\<close> is not
  empty; the matcher reports the head of \<open>flag_ends\<close>, the match that reaches the last
  newline of the trailing whitespace.
\<close>

lemma pat_flag_tail: "pat_flag = Seq Bol (Seq spaces tail4)"
  by (simp add: pat_flag_def tail0_def tail1_def tail2_def tail3_def tail4_def)

lemma ms_lit:
  "ms (lit s) (p, xs, g) =
     (case strip_pre s xs of None \<Rightarrow> [] | Some ys \<Rightarrow> [(prev_after p s, ys, g)])"
proof (induction s arbitrary: p xs)
  case Nil
  show ?case by simp
next
  case (Cons c cs)
  show ?case
  proof (cases xs)
    case Nil
    then show ?thesis by simp
  next
    case (Cons x xs')
    then show ?thesis using Cons.IH[of "Some c" xs'] by (simp split: option.splits)
  qed
qed

lemma ms_tail0: "ms tail0 (p, xs, g) = map (\<lambda>ys. (Some nl, ys, g)) (nl_ends xs)"
proof (induction xs arbitrary: p)
  case Nil
  show ?case by (simp add: tail0_def ms_spaces_Nil)
next
  case (Cons x xs)
  show ?case
  proof (cases "is_space x")
    case True
    have "ms tail0 (p, x # xs, g) =
            ms tail0 (Some x, xs, g) @ ms (Seq Eol (Chr nl)) (p, x # xs, g)"
      using True by (simp add: tail0_def ms_spaces_Cons)
    then show ?thesis using True Cons[of "Some x"] by simp
  next
    case False
    then have "x \<noteq> nl" using space_nl by auto
    with False show ?thesis by (simp add: tail0_def ms_spaces_Cons)
  qed
qed

lemma nl_ends_comma: "nl_ends (comma # xs) = []"
  by simp

lemma ms_tail1: "ms tail1 (p, xs, g) = map (\<lambda>ys. (Some nl, ys, g)) (nl_ends (opt_comma xs))"
proof (cases xs)
  case Nil
  then show ?thesis by (simp add: tail1_def ms_tail0)
next
  case (Cons x xs')
  then show ?thesis by (simp add: tail1_def ms_tail0)
qed

lemma true_false_excl:
  "strip_pre (cps ''true'') xs = Some a \<Longrightarrow> strip_pre (cps ''false'') xs = None"
  by (cases xs) (auto simp: cps_def split: if_splits)

lemma ms_tail2:
  "ms tail2 (p, xs, g) =
     (case value_end xs of None \<Rightarrow> []
      | Some r \<Rightarrow> map (\<lambda>ys. (Some nl, ys, g)) (nl_ends (opt_comma r)))"
proof (cases "strip_pre (cps ''true'') xs")
  case None
  then show ?thesis
    by (cases "strip_pre (cps ''false'') xs")
       (simp_all add: tail2_def ms_lit ms_tail1 value_end_def del: ms.simps(6) 
          add: ms.simps(6)[of "Alt (lit (cps ''true'')) (lit (cps ''false''))"])
next
  case (Some a)
  then have "strip_pre (cps ''false'') xs = None" by (rule true_false_excl)
  with Some show ?thesis
    by (simp add: tail2_def ms_lit ms_tail1 value_end_def del: ms.simps(6) 
          add: ms.simps(6)[of "Alt (lit (cps ''true'')) (lit (cps ''false''))"])
qed

lemma value_end_space: "is_space x \<Longrightarrow> value_end (x # xs) = None"
  by (auto simp: value_end_def cps_def is_space_def)

lemma ms_tail3:
  "ms tail3 (p, xs, g) =
     (case value_end (dropWhile is_space xs) of None \<Rightarrow> []
      | Some r \<Rightarrow> map (\<lambda>ys. (Some nl, ys, g)) (nl_ends (opt_comma r)))"
proof -
  have "ms (Seq spaces tail2) (p, xs, g) =
          ms tail2 (prev_after p (takeWhile is_space xs), dropWhile is_space xs, g)"
    by (rule ms_spaces_then) (simp add: ms_tail2 value_end_space)
  then show ?thesis by (simp add: tail3_def ms_tail2 del: ms.simps(6))
qed

lemma ms_tail4:
  "ms tail4 (p, xs, g) =
     (case strip_pre (cps ''recommended:'') xs of None \<Rightarrow> []
      | Some r1 \<Rightarrow>
          (case value_end (dropWhile is_space r1) of None \<Rightarrow> []
           | Some r \<Rightarrow> map (\<lambda>ys. (Some nl, ys, g)) (nl_ends (opt_comma r))))"
  by (cases "strip_pre (cps ''recommended:'') xs")
     (simp_all add: tail4_def ms_lit ms_tail3 del: ms.simps(6) 
          add: ms.simps(6)[of "lit (cps ''recommended:'')"])

lemma strip_pre_rec_space: "is_space x \<Longrightarrow> strip_pre (cps ''recommended:'') (x # xs) = None"
  by (auto simp: cps_def is_space_def)

lemma ms_spaces_tail4:
  "ms (Seq spaces tail4) (p, xs, g) = map (\<lambda>ys. (Some nl, ys, g)) (flag_ends xs)"
proof -
  have "ms (Seq spaces tail4) (p, xs, g) =
          ms tail4 (prev_after p (takeWhile is_space xs), dropWhile is_space xs, g)"
    by (rule ms_spaces_then) (simp add: ms_tail4 strip_pre_rec_space)
  then show ?thesis
    by (simp add: ms_tail4 flag_ends_def split: option.splits del: ms.simps(6))
qed

lemma ms_pat_flag:
  "ms pat_flag (p, xs, g) =
     (if bol p then map (\<lambda>ys. (Some nl, ys, g)) (flag_ends xs) else [])"
  unfolding pat_flag_tail
  by (cases p) (simp_all add: ms.simps(6)[of Bol] ms_spaces_tail4 bol_def del: ms.simps(6))

lemma strip_pre_eq: "strip_pre s xs = Some ys \<Longrightarrow> xs = s @ ys"
  by (induction s xs rule: strip_pre.induct) (auto split: if_splits)

lemma strip_pre_append: "strip_pre s (s @ ys) = Some ys"
  by (induction s) auto

lemma nl_ends_shape: "ys \<in> set (nl_ends xs) \<Longrightarrow> \<exists>w. xs = w @ nl # ys \<and> list_all is_space w"
proof (induction xs)
  case Nil
  then show ?case by simp
next
  case (Cons x xs)
  from Cons.prems have sp: "is_space x" by (auto split: if_splits)
  from Cons.prems sp have "ys \<in> set (nl_ends xs) \<or> (x = nl \<and> ys = xs)"
    by (auto split: if_splits)
  then show ?case
  proof
    assume "ys \<in> set (nl_ends xs)"
    with Cons.IH obtain w where "xs = w @ nl # ys" "list_all is_space w" by blast
    with sp have "x # xs = (x # w) @ nl # ys \<and> list_all is_space (x # w)" by simp
    then show ?thesis by blast
  next
    assume "x = nl \<and> ys = xs"
    then have "x # xs = [] @ nl # ys \<and> list_all is_space []" by simp
    then show ?thesis by blast
  qed
qed

lemma nl_ends_spaces: "list_all is_space w \<Longrightarrow> nl_ends (w @ nl # r) \<noteq> []"
  by (induction w) auto

lemma value_end_shape:
  "value_end xs = Some r \<Longrightarrow> xs = cps ''true'' @ r \<or> xs = cps ''false'' @ r"
  by (auto simp: value_end_def split: option.splits dest: strip_pre_eq)

lemma opt_comma_shape: "xs = opt_comma xs \<or> xs = comma # opt_comma xs"
  by (cases xs) auto

lemma flag_ends_shape:
  assumes "ys \<in> set (flag_ends xs)"
  shows "\<exists>w1 w2 v w3. xs = w1 @ cps ''recommended:'' @ w2 @ v @ w3 @ nl # ys \<and>
           list_all is_space w1 \<and> list_all is_space w2 \<and> list_all is_space w3 \<and>
           flag_value v"
proof -
  from assms obtain r1 where r1: "strip_pre (cps ''recommended:'') (dropWhile is_space xs) = Some r1"
    by (cases "strip_pre (cps ''recommended:'') (dropWhile is_space xs)")
       (auto simp: flag_ends_def)
  with assms obtain r3 where r3: "value_end (dropWhile is_space r1) = Some r3"
    by (cases "value_end (dropWhile is_space r1)") (auto simp: flag_ends_def)
  from assms r1 r3 have ys: "ys \<in> set (nl_ends (opt_comma r3))"
    by (simp add: flag_ends_def)
  from ys obtain w3 where w3: "opt_comma r3 = w3 @ nl # ys" "list_all is_space w3"
    using nl_ends_shape by blast
  define w1 where "w1 = takeWhile is_space xs"
  define w2 where "w2 = takeWhile is_space r1"
  have x1: "xs = w1 @ cps ''recommended:'' @ r1"
    using strip_pre_eq[OF r1] takeWhile_dropWhile_id[of is_space xs] by (simp add: w1_def)
  have x2: "r1 = w2 @ dropWhile is_space r1" by (simp add: w2_def)
  have sp: "list_all is_space w1" "list_all is_space w2"
    by (simp_all add: w1_def w2_def list_all_iff) (meson set_takeWhileD)+
  have "\<exists>v. dropWhile is_space r1 = v @ opt_comma r3 \<and> flag_value v"
  proof -
    from value_end_shape[OF r3] obtain t where
      t: "dropWhile is_space r1 = t @ r3" "t = cps ''true'' \<or> t = cps ''false''" by blast
    from opt_comma_shape[of r3] show ?thesis
    proof
      assume "r3 = opt_comma r3"
      with t have "dropWhile is_space r1 = t @ opt_comma r3 \<and> flag_value t"
        by (auto simp: flag_value_def)
      then show ?thesis by blast
    next
      assume a: "r3 = comma # opt_comma r3"
      have "t @ r3 = (t @ [comma]) @ opt_comma r3" by (subst a) simp
      moreover have "flag_value (t @ [comma])" using t(2)
        by (auto simp: flag_value_def cps_def comma_def)
      ultimately show ?thesis using t(1) by metis
    qed
  qed
  then obtain v where v: "dropWhile is_space r1 = v @ opt_comma r3" "flag_value v" by blast
  have "xs = w1 @ cps ''recommended:'' @ w2 @ v @ w3 @ nl # ys"
    using x1 x2 v(1) w3(1) by (metis append_assoc)
  with sp w3(2) v(2) show ?thesis by blast
qed

lemma flag_ends_length: "ys \<in> set (flag_ends xs) \<Longrightarrow> length ys < length xs"
  using flag_ends_shape[of ys xs] by auto

lemma flag_ends_nl: "flag_ends xs \<noteq> [] \<Longrightarrow> nl \<in> set xs"
proof -
  assume "flag_ends xs \<noteq> []"
  then obtain ys where "ys \<in> set (flag_ends xs)" by (cases "flag_ends xs") auto
  from flag_ends_shape[OF this] show ?thesis by auto
qed

lemma match_at_pat_flag:
  "match_at pat_flag adv p xs =
     (if bol p then (case flag_ends xs of [] \<Rightarrow> None | ys # _ \<Rightarrow> Some (Some nl, ys, []))
      else None)"
proof (cases "bol p")
  case False
  then show ?thesis by (simp add: match_at_def ms_pat_flag)
next
  case True
  have "filter (\<lambda>s'. \<not> adv \<or> length (rest s') < length xs)
          (map (\<lambda>ys. (Some nl, ys, [])) (flag_ends xs)) = map (\<lambda>ys. (Some nl, ys, [])) (flag_ends xs)"
    by (rule filter_True) (auto dest: flag_ends_length)
  with True show ?thesis
    by (cases "flag_ends xs") (simp_all add: match_at_def ms_pat_flag)
qed

lemma strip_lines_from: "strip_lines xs = strip_from None xs"
  by (simp add: strip_lines_def re_sub_def strip_from_def)

lemma sf_Nil: "strip_from p [] = []"
proof -
  have "flag_ends [] = []" by (simp add: flag_ends_def cps_def)
  then show ?thesis unfolding strip_from_def
    by (subst sub_from.simps) (simp add: match_at_pat_flag)
qed

lemma sf_match:
  assumes "bol p" and "flag_ends xs = ys # yss"
  shows "strip_from p xs = strip_from (Some nl) ys"
proof -
  have "ys \<in> set (flag_ends xs)" using assms(2) by simp
  then have "length ys < length xs" by (rule flag_ends_length)
  with assms show ?thesis unfolding strip_from_def
    by (subst sub_from.simps) (simp add: match_at_pat_flag)
qed

lemma sf_copy:
  assumes "\<not> bol p \<or> flag_ends (x # xs) = []"
  shows "strip_from p (x # xs) = x # strip_from (Some x) xs"
proof -
  from assms have "match_at pat_flag False p (x # xs) = None"
    by (auto simp: match_at_pat_flag)
  then show ?thesis unfolding strip_from_def
    by (subst sub_from.simps) simp
qed

lemma sf_line:
  "nl \<notin> set l \<Longrightarrow> \<not> bol p \<or> flag_ends (l @ nl # r) = [] \<Longrightarrow>
     strip_from p (l @ nl # r) = l @ nl # strip_from (Some nl) r"
proof (induction l arbitrary: p)
  case Nil
  then show ?case by (simp add: sf_copy)
next
  case (Cons x l)
  have "\<not> bol (Some x)" using Cons.prems(1) by (auto simp: bol_def)
  then have "strip_from (Some x) (l @ nl # r) = l @ nl # strip_from (Some nl) r"
    using Cons.IH[of "Some x"] Cons.prems(1) by simp
  moreover have "strip_from p ((x # l) @ nl # r) = x # strip_from (Some x) (l @ nl # r)"
    using Cons.prems(2) by (simp add: sf_copy)
  ultimately show ?case by simp
qed

lemma sf_last: "nl \<notin> set l \<Longrightarrow> strip_from p l = l"
proof (induction l arbitrary: p)
  case Nil
  show ?case by (rule sf_Nil)
next
  case (Cons x l)
  have "flag_ends (x # l) = []" using flag_ends_nl[of "x # l"] Cons.prems by blast
  then have "strip_from p (x # l) = x # strip_from (Some x) l" by (simp add: sf_copy)
  with Cons show ?case by simp
qed

section \<open>The line removal\<close>

text \<open>
  A match of the line pattern starts at the start of a line and ends behind a newline, so
  the line removal deletes whole lines and copies the others.
\<close>

lemma split_lines_ne [simp]: "split_lines xs \<noteq> []"
  by (induction xs) (auto split: list.splits)

lemma split_lines_line: "nl \<notin> set l \<Longrightarrow> split_lines (l @ nl # r) = l # split_lines r"
  by (induction l) auto

lemma split_lines_single: "nl \<notin> set l \<Longrightarrow> split_lines l = [l]"
  by (induction l) auto

lemma split_lines_append_nl: "split_lines (a @ nl # r) = split_lines a @ split_lines r"
proof (induction a)
  case Nil
  show ?case by simp
next
  case (Cons x a)
  then show ?case by (cases "split_lines a") auto
qed

lemma trim_decomp:
  "\<exists>w1 w2. l = w1 @ trim l @ w2 \<and> list_all is_space w1 \<and> list_all is_space w2"
proof -
  define m where "m = dropWhile is_space l"
  have a: "l = takeWhile is_space l @ m" by (simp add: m_def)
  have e: "takeWhile is_space (rev m) @ dropWhile is_space (rev m) = rev m" by simp
  have "rev (dropWhile is_space (rev m)) @ rev (takeWhile is_space (rev m)) =
          rev (takeWhile is_space (rev m) @ dropWhile is_space (rev m))"
    by (simp only: rev_append)
  also have "\<dots> = m" by (simp only: e rev_rev_ident)
  finally have b: "m = trim l @ rev (takeWhile is_space (rev m))"
    by (simp only: trim_def m_def)
  have c: "list_all is_space (takeWhile is_space l)"
    by (simp add: list_all_iff) (meson set_takeWhileD)
  have d: "list_all is_space (rev (takeWhile is_space (rev m)))"
    by (simp add: list_all_iff) (meson set_takeWhileD)
  from a b have "l = takeWhile is_space l @ trim l @ rev (takeWhile is_space (rev m))"
    by simp
  with c d show ?thesis by blast
qed

lemma dw_spaces: "list_all is_space w \<Longrightarrow> \<not> is_space y \<Longrightarrow> dropWhile is_space (w @ y # t) = y # t"
  by (induction w) auto

lemma opt_comma_spaces: "list_all is_space w \<Longrightarrow> opt_comma (w @ nl # r) = w @ nl # r"
  by (cases w) (auto simp: nl_def comma_def is_space_def)

lemma flag_ends_line:
  assumes "list_all is_space w1" and "list_all is_space w2"
    and "f \<in> set [cps ''recommended: true'', cps ''recommended: true,'',
                   cps ''recommended: false'', cps ''recommended: false,'']"
  shows "flag_ends (w1 @ f @ w2 @ nl # r) = nl_ends (w2 @ nl # r)"
proof -
  have r: "\<not> is_space 114" by (simp add: is_space_def)
  note d = dw_spaces[OF assms(1) r]
  note o = opt_comma_spaces[OF assms(2), of r]
  from assms(3) consider "f = cps ''recommended: true''" | "f = cps ''recommended: true,''"
    | "f = cps ''recommended: false''" | "f = cps ''recommended: false,''"
    by auto
  then show ?thesis
  proof cases
    case 1
    then show ?thesis using d o
      by (simp add: flag_ends_def cps_def value_end_def is_space_def comma_def)
  next
    case 2
    then show ?thesis using d o
      by (simp add: flag_ends_def cps_def value_end_def is_space_def comma_def)
  next
    case 3
    then show ?thesis using d o
      by (simp add: flag_ends_def cps_def value_end_def is_space_def comma_def)
  next
    case 4
    then show ?thesis using d o
      by (simp add: flag_ends_def cps_def value_end_def is_space_def comma_def)
  qed
qed

lemma flag_line_match:
  assumes "flag_line l" and "nl \<notin> set l"
  shows "flag_ends (l @ nl # r) \<noteq> []"
proof -
  from trim_decomp[of l] obtain w1 w2 where
    l: "l = w1 @ trim l @ w2" and w: "list_all is_space w1" "list_all is_space w2" by blast
  from assms(1) have a: "flag_ends (w1 @ trim l @ w2 @ nl # r) = nl_ends (w2 @ nl # r)"
    unfolding flag_line_def by (rule flag_ends_line[OF w])
  have "l @ nl # r = (w1 @ trim l @ w2) @ nl # r" using l by (rule arg_cong)
  then have b: "l @ nl # r = w1 @ trim l @ w2 @ nl # r" by (simp only: append_assoc)
  show ?thesis unfolding b a using w(2) by (rule nl_ends_spaces)
qed

lemma no_flag_line_left:
  "bol p \<Longrightarrow> \<forall>l\<in>set (butlast (split_lines (strip_from p xs))). \<not> flag_line l"
proof (induction xs arbitrary: p rule: length_induct)
  case (1 xs)
  note IH = "1.IH"[rule_format]
  show ?case
  proof (cases "flag_ends xs")
    case (Cons ys yss)
    then have "ys \<in> set (flag_ends xs)" by simp
    then have len: "length ys < length xs" by (rule flag_ends_length)
    have "strip_from p xs = strip_from (Some nl) ys" using "1.prems" Cons by (rule sf_match)
    moreover have "bol (Some nl)" by (simp add: bol_def)
    ultimately show ?thesis using IH[OF len, of "Some nl"] by simp
  next
    case Nil
    show ?thesis
    proof (cases "nl \<in> set xs")
      case False
      then show ?thesis by (simp add: sf_last split_lines_single)
    next
      case True
      then obtain l r where xs: "xs = l @ nl # r" and l: "nl \<notin> set l"
        by (meson split_list_first)
      have sf: "strip_from p xs = l @ nl # strip_from (Some nl) r"
        unfolding xs using l Nil xs by (intro sf_line) simp_all
      have nf: "\<not> flag_line l" using flag_line_match[OF _ l, of r] Nil xs by auto
      have len: "length r < length xs" by (simp add: xs)
      have "\<forall>l\<in>set (butlast (split_lines (strip_from (Some nl) r))). \<not> flag_line l"
        using IH[OF len, of "Some nl"] by (simp add: bol_def)
      with nf show ?thesis by (simp add: sf split_lines_line[OF l])
    qed
  qed
qed

text \<open>
  C1, amended: the line-removal step \<open>strip_lines\<close> leaves no newline-terminated line
  that, trimmed, reads \<open>recommended: true\<close> or \<open>recommended: false\<close>, with or
  without a trailing comma.
\<close>

theorem C1_terminated_flag_lines_removed:
  "\<not> list_ex flag_line (terminated_lines (strip_lines s))"
  using no_flag_line_left[of None s]
  by (simp add: strip_lines_from terminated_lines_def bol_def list_ex_iff)

theorem C1_terminated_flag_lines_removed_witness:
  "list_ex flag_line (terminated_lines (cps ''a: 1,\<newline>  recommended: true,\<newline>b: 2\<newline>'')) \<and>
   \<not> list_ex flag_line
       (terminated_lines (strip_lines (cps ''a: 1,\<newline>  recommended: true,\<newline>b: 2\<newline>'')))"
proof -
  have "list_ex flag_line (terminated_lines (cps ''a: 1,\<newline>  recommended: true,\<newline>b: 2\<newline>''))"
    by code_simp
  then show ?thesis
    using C1_terminated_flag_lines_removed[of "cps ''a: 1,\<newline>  recommended: true,\<newline>b: 2\<newline>''"]
    by simp
qed

text \<open>
  C1, as the specification states it, fails. In the output of the transformation below
  both lines are flag lines: the first was \<open>recommended: true,,\<close> in the input, which
  the line pattern does not match and the comma collapse then turns into a flag line; the
  second is a flag line without a newline behind it, which the line pattern, ending in
  \<open>\n\<close>, does not match either.
\<close>

theorem C1_flag_lines_left_counterexample:
  "transform (cps ''recommended: true,,\<newline>recommended: false'') =
     cps ''recommended: true,\<newline>recommended: false'' \<and>
   split_lines (transform (cps ''recommended: true,,\<newline>recommended: false'')) =
     [cps ''recommended: true,'', cps ''recommended: false''] \<and>
   flag_line (cps ''recommended: true,'') \<and> flag_line (cps ''recommended: false'')"
  by code_simp

lemma strip_from_removal:
  "bol p \<Longrightarrow>
     line_removal xs (strip_from p xs) \<and>
     subseq (split_lines (strip_from p xs)) (split_lines xs)"
proof (induction xs arbitrary: p rule: length_induct)
  case (1 xs)
  note IH = "1.IH"[rule_format]
  have bn: "bol (Some nl)" by (simp add: bol_def)
  show ?case
  proof (cases "flag_ends xs")
    case (Cons ys yss)
    then have m: "ys \<in> set (flag_ends xs)" by simp
    then have len: "length ys < length xs" by (rule flag_ends_length)
    have sf: "strip_from p xs = strip_from (Some nl) ys" using "1.prems" Cons by (rule sf_match)
    from flag_ends_shape[OF m] obtain w1 w2 v w3 where
      xs: "xs = w1 @ cps ''recommended:'' @ w2 @ v @ w3 @ nl # ys"
      and w: "list_all is_space w1" "list_all is_space w2" "list_all is_space w3"
      and v: "flag_value v" by blast
    from IH[OF len bn] have r: "line_removal ys (strip_from (Some nl) ys)"
      and q: "subseq (split_lines (strip_from (Some nl) ys)) (split_lines ys)" by simp_all
    have a: "line_removal xs (strip_from p xs)"
      unfolding sf unfolding xs using w v r by (rule drop_flag)
    have "xs = (w1 @ cps ''recommended:'' @ w2 @ v @ w3) @ nl # ys" using xs by simp
    then have "split_lines xs =
        split_lines (w1 @ cps ''recommended:'' @ w2 @ v @ w3) @ split_lines ys"
      by (simp only: split_lines_append_nl)
    with q have "subseq (split_lines (strip_from p xs)) (split_lines xs)"
      unfolding sf by (simp add: list_emb_append2)
    with a show ?thesis by simp
  next
    case Nil
    show ?thesis
    proof (cases "nl \<in> set xs")
      case False
      then show ?thesis by (simp add: sf_last split_lines_single last_line)
    next
      case True
      then obtain l r where xs: "xs = l @ nl # r" and l: "nl \<notin> set l"
        by (meson split_list_first)
      have sf: "strip_from p xs = l @ nl # strip_from (Some nl) r"
        unfolding xs using l Nil xs by (intro sf_line) simp_all
      have len: "length r < length xs" by (simp add: xs)
      from IH[OF len bn] have r: "line_removal r (strip_from (Some nl) r)"
        and q: "subseq (split_lines (strip_from (Some nl) r)) (split_lines r)" by simp_all
      have "line_removal xs (strip_from p xs)"
        unfolding sf unfolding xs using l r by (rule keep_line)
      moreover have "subseq (split_lines (strip_from p xs)) (split_lines xs)"
        unfolding sf unfolding xs using q by (simp add: split_lines_line[OF l])
      ultimately show ?thesis by simp
    qed
  qed
qed

text \<open>
  The relation leaves no room for removing anything else. A block of the shape above is
  matched by the line pattern, so on a text in which the pattern matches at no line start
  the relation allows the text itself only.
\<close>

lemma flag_ends_of_block:
  assumes w: "list_all is_space w1" "list_all is_space w2" "list_all is_space w3"
    and v: "flag_value v"
  shows "flag_ends (w1 @ cps ''recommended:'' @ w2 @ v @ w3 @ nl # r) = nl_ends (w3 @ nl # r)"
proof -
  have r: "\<not> is_space 114" by (simp add: is_space_def)
  have d1: "dropWhile is_space (w1 @ cps ''recommended:'' @ w2 @ v @ w3 @ nl # r) =
              cps ''recommended:'' @ w2 @ v @ w3 @ nl # r"
    using dw_spaces[OF w(1) r] by (simp add: cps_def)
  have s1: "strip_pre (cps ''recommended:'') (cps ''recommended:'' @ w2 @ v @ w3 @ nl # r) =
              Some (w2 @ v @ w3 @ nl # r)"
    by (rule strip_pre_append)
  have o: "opt_comma (w3 @ nl # r) = w3 @ nl # r" by (rule opt_comma_spaces[OF w(3)])
  have t: "\<not> is_space 116" and f: "\<not> is_space 102" by (simp_all add: is_space_def)
  from v consider "v = cps ''true''" | "v = cps ''false''" | "v = cps ''true,''"
    | "v = cps ''false,''" by (auto simp: flag_value_def)
  then have "(case value_end (dropWhile is_space (w2 @ v @ w3 @ nl # r)) of
                None \<Rightarrow> [] | Some r3 \<Rightarrow> nl_ends (opt_comma r3)) = nl_ends (w3 @ nl # r)"
  proof cases
    case 1
    then show ?thesis using dw_spaces[OF w(2) t] o
      by (simp add: cps_def value_end_def)
  next
    case 2
    then show ?thesis using dw_spaces[OF w(2) f] o
      by (simp add: cps_def value_end_def)
  next
    case 3
    then show ?thesis using dw_spaces[OF w(2) t]
      by (simp add: cps_def value_end_def comma_def)
  next
    case 4
    then show ?thesis using dw_spaces[OF w(2) f]
      by (simp add: cps_def value_end_def comma_def)
  qed
  then show ?thesis unfolding flag_ends_def d1 s1 by simp
qed

lemma flag_block_in_line:
  "nl \<notin> set l \<Longrightarrow> flag_block_in (Some nl) r \<Longrightarrow> flag_block_in p (l @ nl # r)"
proof (induction l arbitrary: p)
  case Nil
  then show ?case by simp
next
  case (Cons x l)
  then show ?case by simp
qed

lemma line_removal_without_flag:
  "line_removal s t \<Longrightarrow> bol p \<Longrightarrow> \<not> flag_block_in p s \<Longrightarrow> t = s"
proof (induction arbitrary: p rule: line_removal.induct)
  case (last_line l)
  show ?case by simp
next
  case (keep_line l r r')
  have "\<not> flag_block_in (Some nl) r"
    using flag_block_in_line[OF keep_line.hyps(1), of r p] keep_line.prems(2) by blast
  then have "r' = r" using keep_line.IH[of "Some nl"] by (simp add: bol_def)
  then show ?case by simp
next
  case (drop_flag w1 w2 w3 v r r')
  let ?xs = "w1 @ cps ''recommended:'' @ w2 @ v @ w3 @ nl # r"
  have "flag_ends ?xs = nl_ends (w3 @ nl # r)"
    using drop_flag.hyps(1-4) by (rule flag_ends_of_block)
  then have ne: "flag_ends ?xs \<noteq> []" using nl_ends_spaces[OF drop_flag.hyps(3)] by simp
  have "?xs \<noteq> []" by (simp add: cps_def)
  then obtain x xs' where xs: "?xs = x # xs'" by (cases ?xs) auto
  have "flag_block_in p ?xs" unfolding xs using ne drop_flag.prems(1) xs by simp
  with drop_flag.prems(2) show ?case by simp
qed

text \<open>
  C2, amended: the line-removal step removes only blocks matched by the line pattern.
  Read from its start, the input splits into lines that are copied unchanged, each with
  its newline, and removed blocks. Each removed block starts at the start of a line and
  consists of whitespace, \<open>recommended:\<close>, whitespace, \<open>true\<close> or \<open>false\<close>, an
  optional comma, whitespace and a final newline (all whitespace optional and possibly
  containing newlines). Every line of the input outside such a block, empty and
  whitespace-only lines included, is present unchanged; the lines of the output are a
  subsequence of the lines of the input.
\<close>

theorem C2_only_flag_blocks_removed:
  "line_removal s (strip_lines s) \<and>
   subseq (split_lines (strip_lines s)) (split_lines s)"
  using strip_from_removal[of None s] by (simp add: strip_lines_from bol_def)

theorem C2_only_flag_blocks_removed_witness:
  "line_removal (cps ''a: 1,\<newline>\<newline>  recommended:true\<newline>b: 2'') (cps ''a: 1,\<newline>b: 2'') \<and>
   subseq [cps ''a: 1,'', cps ''b: 2'']
     (split_lines (cps ''a: 1,\<newline>\<newline>  recommended:true\<newline>b: 2''))"
proof -
  have e: "strip_lines (cps ''a: 1,\<newline>\<newline>  recommended:true\<newline>b: 2'') = cps ''a: 1,\<newline>b: 2''"
    by code_simp
  have l: "split_lines (cps ''a: 1,\<newline>b: 2'') = [cps ''a: 1,'', cps ''b: 2'']"
    by code_simp
  from C2_only_flag_blocks_removed[of "cps ''a: 1,\<newline>\<newline>  recommended:true\<newline>b: 2''"]
  show ?thesis unfolding e l .
qed

text \<open>
  C2, as the specification states it, fails. Below, the second line is empty and the
  third has no space after the colon, so neither is a flag line; both are removed: the
  leading \<open>\s*\<close> of the pattern matches the newline of the empty line, and
  \<open>recommended:\s*\<close> asks for no space.
\<close>

theorem C2_other_lines_removed_counterexample:
  "split_lines (cps ''a\<newline>\<newline>recommended:true,\<newline>b'') =
     [cps ''a'', [], cps ''recommended:true,'', cps ''b''] \<and>
   \<not> flag_line [] \<and> \<not> flag_line (cps ''recommended:true,'') \<and>
   split_lines (strip_lines (cps ''a\<newline>\<newline>recommended:true,\<newline>b'')) = [cps ''a'', cps ''b'']"
  by code_simp

section \<open>Clean texts and the second pass\<close>

text \<open>
  A substitution leaves a text in which its pattern does not match as it is, and shortens
  every other text. So the transformation leaves exactly the clean texts unchanged.
\<close>

lemma strip_from_id: "\<not> flag_block_in p xs \<Longrightarrow> strip_from p xs = xs"
proof (induction xs arbitrary: p)
  case Nil
  show ?case by (rule sf_Nil)
next
  case (Cons x xs)
  then have "\<not> bol p \<or> flag_ends (x # xs) = []" by auto
  then have "strip_from p (x # xs) = x # strip_from (Some x) xs" by (rule sf_copy)
  with Cons show ?case by simp
qed

lemma collapse_id: "\<not> comma_before comma xs \<Longrightarrow> collapse_commas xs = xs"
proof (induction xs)
  case Nil
  show ?case by (rule collapse_Nil)
next
  case (Cons x xs)
  show ?case
  proof (cases "x = comma")
    case False
    with Cons show ?thesis by (simp add: collapse_other)
  next
    case True
    have "\<And>ys. dropWhile is_space xs \<noteq> comma # ys"
    proof
      fix ys assume "dropWhile is_space xs = comma # ys"
      with True have "comma_before comma (x # xs)" by simp
      with Cons.prems show False by simp
    qed
    then have "collapse_commas (comma # xs) = comma # collapse_commas xs"
      by (rule collapse_single)
    with Cons True show ?thesis by simp
  qed
qed

lemma trailing_id: "\<not> comma_before rbrace xs \<Longrightarrow> strip_trailing xs = xs"
proof (induction xs)
  case Nil
  show ?case by (rule trailing_Nil)
next
  case (Cons x xs)
  show ?case
  proof (cases "x = comma")
    case False
    with Cons show ?thesis by (simp add: trailing_other)
  next
    case True
    have "\<And>ys. dropWhile is_space xs \<noteq> rbrace # ys"
    proof
      fix ys assume "dropWhile is_space xs = rbrace # ys"
      with True have "comma_before rbrace (x # xs)" by simp
      with Cons.prems show False by simp
    qed
    then have "strip_trailing (comma # xs) = comma # strip_trailing xs"
      by (rule trailing_single)
    with Cons True show ?thesis by simp
  qed
qed

lemma transform_clean: "clean s \<Longrightarrow> transform s = s"
  by (simp add: clean_def transform_def strip_lines_from strip_from_id collapse_id trailing_id)

lemma strip_from_length: "length (strip_from p xs) \<le> length xs"
proof (induction xs arbitrary: p rule: length_induct)
  case (1 xs)
  note IH = "1.IH"[rule_format]
  show ?case
  proof (cases "bol p \<and> flag_ends xs \<noteq> []")
    case True
    then obtain ys yss where f: "flag_ends xs = ys # yss" by (cases "flag_ends xs") auto
    then have "ys \<in> set (flag_ends xs)" by simp
    then have len: "length ys < length xs" by (rule flag_ends_length)
    have "strip_from p xs = strip_from (Some nl) ys" using True f by (intro sf_match) simp_all
    with IH[OF len, of "Some nl"] len show ?thesis by simp
  next
    case False
    show ?thesis
    proof (cases xs)
      case Nil
      then show ?thesis by (simp add: sf_Nil)
    next
      case (Cons x xs')
      with False have "strip_from p xs = x # strip_from (Some x) xs'"
        by (auto simp: sf_copy)
      with IH[of xs' "Some x"] Cons show ?thesis by simp
    qed
  qed
qed

lemma strip_from_shorter: "flag_block_in p xs \<Longrightarrow> length (strip_from p xs) < length xs"
proof (induction xs arbitrary: p)
  case Nil
  then show ?case by simp
next
  case (Cons x xs)
  show ?case
  proof (cases "bol p \<and> flag_ends (x # xs) \<noteq> []")
    case True
    then obtain ys yss where f: "flag_ends (x # xs) = ys # yss"
      by (cases "flag_ends (x # xs)") auto
    then have "ys \<in> set (flag_ends (x # xs))" by simp
    then have len: "length ys < length (x # xs)" by (rule flag_ends_length)
    have "strip_from p (x # xs) = strip_from (Some nl) ys"
      using True f by (intro sf_match) simp_all
    with strip_from_length[of "Some nl" ys] len show ?thesis by simp
  next
    case False
    then have "strip_from p (x # xs) = x # strip_from (Some x) xs" by (auto simp: sf_copy)
    moreover from False Cons.prems have "flag_block_in (Some x) xs" by auto
    ultimately show ?thesis using Cons.IH by simp
  qed
qed

lemma collapse_length: "length (collapse_commas xs) \<le> length xs"
proof (induction xs rule: length_induct)
  case (1 xs)
  note IH = "1.IH"[rule_format]
  show ?case
  proof (cases xs)
    case Nil
    then show ?thesis by (simp add: collapse_Nil)
  next
    case (Cons x xs')
    show ?thesis
    proof (cases "x = comma")
      case False
      with IH[of xs'] Cons show ?thesis by (simp add: collapse_other)
    next
      case True
      show ?thesis
      proof (cases "\<exists>ys. dropWhile is_space xs' = comma # ys")
        case True
        then obtain ys where d: "dropWhile is_space xs' = comma # ys" by blast
        have len: "length ys < length xs'" using d by (rule length_dropWhile_tail)
        with IH[of ys] Cons \<open>x = comma\<close> show ?thesis by (simp add: collapse_pair[OF d])
      next
        case False
        then have "\<And>ys. dropWhile is_space xs' \<noteq> comma # ys" by blast
        then have "collapse_commas (comma # xs') = comma # collapse_commas xs'"
          by (rule collapse_single)
        with IH[of xs'] Cons \<open>x = comma\<close> show ?thesis by simp
      qed
    qed
  qed
qed

lemma collapse_shorter: "comma_before comma xs \<Longrightarrow> length (collapse_commas xs) < length xs"
proof (induction xs)
  case Nil
  then show ?case by simp
next
  case (Cons x xs)
  show ?case
  proof (cases "x = comma \<and> (\<exists>ys. dropWhile is_space xs = comma # ys)")
    case True
    then obtain ys where d: "dropWhile is_space xs = comma # ys" by blast
    have len: "length ys < length xs" using d by (rule length_dropWhile_tail)
    with collapse_length[of ys] True show ?thesis by (simp add: collapse_pair[OF d])
  next
    case False
    then have cb: "comma_before comma xs" using Cons.prems by (auto split: list.splits)
    have "collapse_commas (x # xs) = x # collapse_commas xs"
    proof (cases "x = comma")
      case True
      with False have "\<And>ys. dropWhile is_space xs \<noteq> comma # ys" by blast
      then show ?thesis unfolding True by (rule collapse_single)
    next
      case False
      then show ?thesis by (rule collapse_other)
    qed
    with Cons.IH[OF cb] show ?thesis by simp
  qed
qed

lemma trailing_length: "length (strip_trailing xs) \<le> length xs"
proof (induction xs rule: length_induct)
  case (1 xs)
  note IH = "1.IH"[rule_format]
  show ?case
  proof (cases xs)
    case Nil
    then show ?thesis by (simp add: trailing_Nil)
  next
    case (Cons x xs')
    show ?thesis
    proof (cases "x = comma")
      case False
      with IH[of xs'] Cons show ?thesis by (simp add: trailing_other)
    next
      case True
      show ?thesis
      proof (cases "\<exists>ys. dropWhile is_space xs' = rbrace # ys")
        case True
        then obtain ys where d: "dropWhile is_space xs' = rbrace # ys" by blast
        have len: "length ys < length xs'" using d by (rule length_dropWhile_tail)
        have "length xs' = length (takeWhile is_space xs') + length (dropWhile is_space xs')"
          by (metis length_append takeWhile_dropWhile_id)
        with IH[of ys] len Cons \<open>x = comma\<close> d show ?thesis
          by (simp add: trailing_match[OF d])
      next
        case False
        then have "\<And>ys. dropWhile is_space xs' \<noteq> rbrace # ys" by blast
        then have "strip_trailing (comma # xs') = comma # strip_trailing xs'"
          by (rule trailing_single)
        with IH[of xs'] Cons \<open>x = comma\<close> show ?thesis by simp
      qed
    qed
  qed
qed

lemma trailing_shorter: "comma_before rbrace xs \<Longrightarrow> length (strip_trailing xs) < length xs"
proof (induction xs)
  case Nil
  then show ?case by simp
next
  case (Cons x xs)
  show ?case
  proof (cases "x = comma \<and> (\<exists>ys. dropWhile is_space xs = rbrace # ys)")
    case True
    then obtain ys where d: "dropWhile is_space xs = rbrace # ys" by blast
    have "length xs = length (takeWhile is_space xs) + length (dropWhile is_space xs)"
      by (metis length_append takeWhile_dropWhile_id)
    with trailing_length[of ys] True d show ?thesis by (simp add: trailing_match[OF d])
  next
    case False
    then have cb: "comma_before rbrace xs" using Cons.prems by (auto split: list.splits)
    have "strip_trailing (x # xs) = x # strip_trailing xs"
    proof (cases "x = comma")
      case True
      with False have "\<And>ys. dropWhile is_space xs \<noteq> rbrace # ys" by blast
      then show ?thesis unfolding True by (rule trailing_single)
    next
      case False
      then show ?thesis by (rule trailing_other)
    qed
    with Cons.IH[OF cb] show ?thesis by simp
  qed
qed

lemma transform_shorter: "\<not> clean t \<Longrightarrow> length (transform t) < length t"
proof -
  assume nc: "\<not> clean t"
  have l1: "length (strip_lines t) \<le> length t"
    by (simp add: strip_lines_from strip_from_length)
  have l2: "length (collapse_commas (strip_lines t)) \<le> length (strip_lines t)"
    by (rule collapse_length)
  have l3: "length (transform t) \<le> length (collapse_commas (strip_lines t))"
    unfolding transform_def by (rule trailing_length)
  from nc consider "flag_block_in None t"
    | "\<not> flag_block_in None t" "comma_before comma t"
    | "\<not> flag_block_in None t" "\<not> comma_before comma t" "comma_before rbrace t"
    unfolding clean_def by blast
  then show "length (transform t) < length t"
  proof cases
    case 1
    then have "length (strip_lines t) < length t"
      by (simp add: strip_lines_from strip_from_shorter)
    with l2 l3 show ?thesis by simp
  next
    case 2
    then have s: "strip_lines t = t" by (simp add: strip_lines_from strip_from_id)
    from 2 have "length (collapse_commas t) < length t" by (simp add: collapse_shorter)
    with l3 s show ?thesis by simp
  next
    case 3
    then have s: "collapse_commas (strip_lines t) = t"
      by (simp add: strip_lines_from strip_from_id collapse_id)
    from 3 have "length (strip_trailing t) < length t" by (simp add: trailing_shorter)
    with s show ?thesis by (simp add: transform_def)
  qed
qed

lemma transform_fixed_clean: "transform t = t \<Longrightarrow> clean t"
  using transform_shorter[of t] by force

text \<open>
  C7, amended: applying the transformation twice gives the same text as applying it once
  exactly when the once-transformed text is clean: it has no removable flag block at a
  line start, no comma followed by whitespace and a comma, and no comma followed by
  whitespace and a closing brace. Otherwise the second application shortens the text.
\<close>

theorem C7_second_pass:
  "(transform (transform s) = transform s \<longleftrightarrow> clean (transform s)) \<and>
   (\<not> clean (transform s) \<longrightarrow> length (transform (transform s)) < length (transform s))"
  using transform_clean[of "transform s"] transform_fixed_clean[of "transform s"]
    transform_shorter[of "transform s"] by blast

theorem C7_second_pass_witness:
  "clean (transform (cps ''foo: 1,\<newline>  recommended: false,\<newline>  bar: 2,\<newline>}'')) \<and>
   transform (transform (cps ''foo: 1,\<newline>  recommended: false,\<newline>  bar: 2,\<newline>}'')) =
     transform (cps ''foo: 1,\<newline>  recommended: false,\<newline>  bar: 2,\<newline>}'') \<and>
   \<not> clean (transform (cps '',,,}'')) \<and>
   length (transform (transform (cps '',,,}''))) < length (transform (cps '',,,}''))"
proof -
  have c: "clean (transform (cps ''foo: 1,\<newline>  recommended: false,\<newline>  bar: 2,\<newline>}''))"
    by code_simp
  have n: "\<not> clean (transform (cps '',,,}''))"
    by code_simp
  from c n show ?thesis
    using C7_second_pass[of "cps ''foo: 1,\<newline>  recommended: false,\<newline>  bar: 2,\<newline>}''"]
      C7_second_pass[of "cps '',,,}''"]
    by simp
qed

text \<open>
  C7, as the specification states it, fails on a text with no comma at all: the first pass
  removes the middle line, which joins a \<open>recommended:\<close> line and a \<open>true\<close> line into a
  block that the second pass removes.
\<close>

theorem C7_not_idempotent_counterexample:
  "comma \<notin> set (cps ''recommended:\<newline>recommended: true\<newline>true\<newline>'') \<and>
   transform (cps ''recommended:\<newline>recommended: true\<newline>true\<newline>'') = cps ''recommended:\<newline>true\<newline>'' \<and>
   transform (transform (cps ''recommended:\<newline>recommended: true\<newline>true\<newline>'')) = []"
  by code_simp

section \<open>The run of the script\<close>

text \<open>
  C3, amended: the text read from the file (newlines normalised to line feeds by the
  reading step) comes out of the transformation unchanged whenever it is clean: no
  removable flag block at a line start, no comma followed by whitespace and a comma, and
  no comma followed by whitespace and a closing brace.
\<close>

theorem C3_clean_text_unchanged:
  "clean (universal_newlines raw) \<Longrightarrow>
     transform (universal_newlines raw) = universal_newlines raw"
  by (rule transform_clean)

theorem C3_clean_text_unchanged_witness:
  "clean (universal_newlines (cps ''a: 1,'' @ [cr, nl] @ cps ''b: {}'' @ [cr])) \<and>
   transform (universal_newlines (cps ''a: 1,'' @ [cr, nl] @ cps ''b: {}'' @ [cr])) =
     cps ''a: 1,\<newline>b: {}\<newline>''"
proof -
  have c: "clean (universal_newlines (cps ''a: 1,'' @ [cr, nl] @ cps ''b: {}'' @ [cr]))"
    by code_simp
  have "universal_newlines (cps ''a: 1,'' @ [cr, nl] @ cps ''b: {}'' @ [cr]) =
          cps ''a: 1,\<newline>b: {}\<newline>''"
    by code_simp
  with C3_clean_text_unchanged[OF c] c show ?thesis by simp
qed

text \<open>
  C3, as the specification states it, fails: a text with no flag line but with a double
  comma is changed by the comma-collapse step.
\<close>

theorem C3_double_comma_counterexample:
  "\<not> list_ex flag_line (split_lines (cps ''a,,b'')) \<and>
   universal_newlines (cps ''a,,b'') = cps ''a,,b'' \<and>
   transform (cps ''a,,b'') = cps ''a,b''"
  by code_simp

lemma main_read_error: "read_source w = Inl e \<Longrightarrow> main w = (Inl e, w)"
  by (simp add: main_def)

lemma main_read_ok:
  "read_source w = Inr t \<Longrightarrow>
     main w = (case write_target (transform t) w of
                 (Inl e, w') \<Rightarrow> (Inl e, w')
               | (Inr u, w') \<Rightarrow> print_line confirmation w')"
  by (simp add: main_def)

lemma write_target_stdout: "stdout (snd (write_target t w)) = stdout w"
  by (simp add: write_target_def split: option.splits)

lemma write_target_encodable:
  "stdout_encodable (snd (write_target t w)) = stdout_encodable w"
  by (simp add: write_target_def split: option.splits)

lemma main_failure:
  assumes "fst (main w) = Inl e"
  shows "exit_status (main w) = 1 \<and> stdout (snd (main w)) = stdout w"
proof (cases "read_source w")
  case (Inl e')
  then show ?thesis by (simp add: main_read_error exit_status_def)
next
  case (Inr t)
  obtain r w' where wt: "write_target (transform t) w = (r, w')"
    by (cases "write_target (transform t) w")
  have so: "stdout w' = stdout w" using write_target_stdout[of "transform t" w] wt by simp
  show ?thesis
  proof (cases r)
    case (Inl e')
    with Inr wt so show ?thesis by (simp add: main_read_ok exit_status_def)
  next
    case r: (Inr u)
    with Inr wt assms so show ?thesis
      by (simp add: main_read_ok exit_status_def print_line_def split: if_splits)
  qed
qed

lemma main_success:
  assumes "fst (main w) = Inr u"
  shows "exit_status (main w) = 0 \<and> stdout (snd (main w)) = stdout w @ [confirmation]"
proof (cases "read_source w")
  case (Inl e')
  with assms show ?thesis by (simp add: main_read_error)
next
  case (Inr t)
  obtain r w' where wt: "write_target (transform t) w = (r, w')"
    by (cases "write_target (transform t) w")
  have so: "stdout w' = stdout w" using write_target_stdout[of "transform t" w] wt by simp
  show ?thesis
  proof (cases r)
    case (Inl e')
    with Inr wt assms show ?thesis by (simp add: main_read_ok)
  next
    case r: (Inr u')
    with Inr wt assms so show ?thesis
      by (simp add: main_read_ok exit_status_def print_line_def split: if_splits)
  qed
qed

text \<open>
  C8: the script handles no error. A missing file, an unreadable file, a file that is not
  valid UTF-8 and an unwritable file each end the run with that error; every run that
  ends with an error has exit status 1 and prints nothing; a run without error has exit
  status 0 and prints exactly the confirmation line.
\<close>

theorem C8_errors_propagate:
  "(target w = None \<longrightarrow> fst (main w) = Inl FileNotFoundError) \<and>
   (\<forall>f. target w = Some f \<and> \<not> readable f \<longrightarrow> fst (main w) = Inl PermissionError) \<and>
   (\<forall>f. target w = Some f \<and> readable f \<and> utf8_decode (bytes f) = None \<longrightarrow>
        fst (main w) = Inl UnicodeDecodeError) \<and>
   (\<forall>f t. target w = Some f \<and> readable f \<and> utf8_decode (bytes f) = Some t \<and> \<not> writable f \<longrightarrow>
        fst (main w) = Inl PermissionError) \<and>
   (\<forall>e. fst (main w) = Inl e \<longrightarrow>
        exit_status (main w) = 1 \<and> stdout (snd (main w)) = stdout w) \<and>
   (\<forall>u. fst (main w) = Inr u \<longrightarrow>
        exit_status (main w) = 0 \<and> stdout (snd (main w)) = stdout w @ [confirmation])"
proof (intro conjI allI impI)
  assume "target w = None"
  then show "fst (main w) = Inl FileNotFoundError"
    by (simp add: main_def read_source_def)
next
  fix f assume "target w = Some f \<and> \<not> readable f"
  then show "fst (main w) = Inl PermissionError"
    by (simp add: main_def read_source_def)
next
  fix f assume "target w = Some f \<and> readable f \<and> utf8_decode (bytes f) = None"
  then show "fst (main w) = Inl UnicodeDecodeError"
    by (simp add: main_def read_source_def)
next
  fix f t
  assume "target w = Some f \<and> readable f \<and> utf8_decode (bytes f) = Some t \<and> \<not> writable f"
  then show "fst (main w) = Inl PermissionError"
    by (simp add: main_def read_source_def write_target_def)
next
  fix e assume a: "fst (main w) = Inl e"
  from main_failure[OF a] show "exit_status (main w) = 1" by simp
  from main_failure[OF a] show "stdout (snd (main w)) = stdout w" by simp
next
  fix u assume a: "fst (main w) = Inr u"
  from main_success[OF a] show "exit_status (main w) = 0" by simp
  from main_success[OF a] show "stdout (snd (main w)) = stdout w @ [confirmation]" by simp
qed

theorem C8_errors_propagate_witness:
  "fst (main (world_of None)) = Inl FileNotFoundError \<and>
   exit_status (main (world_of None)) = 1 \<and>
   fst (main (world_of (Some (file_of [97] False True)))) = Inl PermissionError \<and>
   fst (main (world_of (Some (file_of [255] True True)))) = Inl UnicodeDecodeError \<and>
   fst (main (world_of (Some (file_of [97] True False)))) = Inl PermissionError \<and>
   fst (main (world_of (Some (file_of [97] True True)))) = Inr () \<and>
   exit_status (main (world_of (Some (file_of [97] True True)))) = 0 \<and>
   stdout (snd (main (world_of (Some (file_of [97] True True))))) = [confirmation]"
proof -
  have d1: "utf8_decode [255] = None" by code_simp
  have d2: "utf8_decode [97] = Some [97]" by code_simp
  have ok: "fst (main (world_of (Some (file_of [97] True True)))) = Inr ()" by code_simp
  show ?thesis
    using C8_errors_propagate[of "world_of None"]
      C8_errors_propagate[of "world_of (Some (file_of [97] False True))"]
      C8_errors_propagate[of "world_of (Some (file_of [255] True True))"]
      C8_errors_propagate[of "world_of (Some (file_of [97] True False))"]
      C8_errors_propagate[of "world_of (Some (file_of [97] True True))"]
      d1 d2 ok
    by (simp add: world_of_def file_of_def)
qed

text \<open>
  C10: when reading or decoding the file fails, the run ends with that error and the
  world, the target file included, is as it was: the file is opened for writing only
  after the text has been read.
\<close>

theorem C10_read_failure_leaves_file:
  "read_source w = Inl e \<Longrightarrow> main w = (Inl e, w) \<and> target (snd (main w)) = target w"
  by (simp add: main_read_error)

theorem C10_read_failure_leaves_file_witness:
  "read_source (world_of (Some (file_of [255, 10] True True))) = Inl UnicodeDecodeError \<and>
   target (snd (main (world_of (Some (file_of [255, 10] True True))))) =
     Some (file_of [255, 10] True True)"
proof -
  have r: "read_source (world_of (Some (file_of [255, 10] True True))) = Inl UnicodeDecodeError"
    by code_simp
  from C10_read_failure_leaves_file[OF r] r show ?thesis by (simp add: world_of_def)
qed

section \<open>The worked example of the specification\<close>

text \<open>
  C4, as the specification states it: on the input
  \<open>foo: 1,\<newline>  recommended: false,\<newline>  bar: 2,\<newline>}\<close> the transformation yields
  \<open>foo: 1,\<newline>  bar: 2,\<newline>}\<close>, the comma after \<open>bar: 2\<close> retained. The code does not
  do that: the claimed output is not the output.
\<close>

theorem C4_example_counterexample:
  "transform (cps ''foo: 1,\<newline>  recommended: false,\<newline>  bar: 2,\<newline>}'')
     \<noteq> cps ''foo: 1,\<newline>  bar: 2,\<newline>}''"
  by code_simp

text \<open>
  C4, amended: on that input the transformation yields \<open>foo: 1,\<newline>  bar: 2\<newline>}\<close>: the
  recommended line is removed, and the third substitution removes the comma after
  \<open>bar: 2\<close>, which stands before the closing brace.
\<close>

theorem C4_example:
  "transform (cps ''foo: 1,\<newline>  recommended: false,\<newline>  bar: 2,\<newline>}'')
     = cps ''foo: 1,\<newline>  bar: 2\<newline>}''"
  by code_simp

end
